theory Spec2Isabelle
  imports Complex_Main
begin

section \<open>Numbers, 2D arrays and errors\<close>

text \<open>
  The simulation computes with NumPy float64 arrays of shape (2,). The embedding takes
  the numbers to be real numbers and a shape-(2,) array value to be a pair of reals, so
  rounding, overflow and NaN are outside the model. The only place where the real
  quotient and NumPy can disagree in kind is a division by zero, which needs
  \<open>np.maximum(distance**3, softening**3) = 0\<close>; with \<open>0 < softening\<close>, as in every
  call the program makes, the denominator is positive.
\<close>

type_synonym vec2 = "real \<times> real"

fun vadd :: "vec2 \<Rightarrow> vec2 \<Rightarrow> vec2" where
  "vadd (a, b) (c, d) = (a + c, b + d)"

fun vsub :: "vec2 \<Rightarrow> vec2 \<Rightarrow> vec2" where
  "vsub (a, b) (c, d) = (a - c, b - d)"

fun smul :: "real \<Rightarrow> vec2 \<Rightarrow> vec2" where
  "smul k (a, b) = (k * a, k * b)"

fun sadd :: "real \<Rightarrow> vec2 \<Rightarrow> vec2" where
  "sadd k (a, b) = (k + a, k + b)"

fun vdiv :: "vec2 \<Rightarrow> real \<Rightarrow> vec2" where
  "vdiv (a, b) k = (a / k, b / k)"

definition zeros2 :: vec2 where
  "zeros2 = (0, 0)"

definition linalg_norm :: "vec2 \<Rightarrow> real" where
  "linalg_norm r = sqrt ((fst r)\<^sup>2 + (snd r)\<^sup>2)"

definition radians :: "real \<Rightarrow> real" where
  "radians d = d * pi / 180"

datatype pyerror = TypeError

section \<open>Objects and the store\<close>

text \<open>
  Body objects and NumPy arrays are mutable and shared by reference, so both live in a
  store: an array address is an index into \<open>arrays\<close>, a Body reference an index into
  \<open>objects\<close>. Allocation appends. \<open>other is not self\<close> compares references.
  The attribute \<open>velocity\<close> holds an array, except after the kill key, which assigns
  the Python number 0 to it. The rendering attributes (colour, sparks, glow surface) are
  left out.
\<close>

datatype velocity_value = VNum real | VArr nat

record body =
  mass :: real
  position :: nat
  velocity :: velocity_value
  is_rocket :: bool
  thrust :: real
  angle :: "real option"
  position_history :: "nat list"

record store =
  arrays :: "vec2 list"
  objects :: "body list"

record system =
  G :: real
  bodies :: "nat list option"

record keys =
  K_LEFT :: bool
  K_RIGHT :: bool
  K_UP :: bool
  K_DOWN :: bool

definition default_G :: real where
  "default_G = 1"

definition default_softening :: real where
  "default_softening = 18 / 100"

section \<open>Body\<close>

text \<open>\<open>Body.__init__\<close>: \<open>np.array\<close> copies its argument into a new array.\<close>

definition Body_init :: "real \<Rightarrow> vec2 \<Rightarrow> vec2 \<Rightarrow> bool \<Rightarrow> store \<Rightarrow> nat \<times> store" where
  "Body_init m p v rocket st =
     (let pa = length (arrays st);
          va = Suc pa;
          b = \<lparr>mass = m, position = pa, velocity = VArr va, is_rocket = rocket,
               thrust = (if rocket then 1 / 10000 else 0),
               angle = (if rocket then Some 0 else None),
               position_history = []\<rparr>
      in (length (objects st),
          \<lparr>arrays = arrays st @ [p, v], objects = objects st @ [b]\<rparr>))"

text \<open>The loop of \<open>Body.compute_acceleration\<close> over \<open>other_bodies\<close>.\<close>

fun gravity_loop :: "store \<Rightarrow> nat \<Rightarrow> real \<Rightarrow> real \<Rightarrow> nat list \<Rightarrow> vec2 \<Rightarrow> vec2" where
  "gravity_loop st self g softening [] acceleration = acceleration"
| "gravity_loop st self g softening (other # rest) acceleration =
     (if other \<noteq> self then
        (let r = vsub (arrays st ! position (objects st ! other))
                      (arrays st ! position (objects st ! self));
             distance = linalg_norm r
         in gravity_loop st self g softening rest
              (vadd acceleration
                 (vdiv (smul (g * mass (objects st ! other)) r)
                       (max (distance ^ 3) (softening ^ 3)))))
      else gravity_loop st self g softening rest acceleration)"

definition compute_acceleration ::
  "store \<Rightarrow> nat \<Rightarrow> nat list \<Rightarrow> real \<Rightarrow> real \<Rightarrow> pyerror + vec2" where
  "compute_acceleration st self other_bodies g softening =
     (let b = objects st ! self;
          acceleration = (if \<not> is_rocket b
                          then gravity_loop st self g softening other_bodies zeros2
                          else zeros2)
      in if is_rocket b then
           (case angle b of
              None \<Rightarrow> Inl TypeError
            | Some a \<Rightarrow>
                Inr (vadd acceleration
                       (- thrust b * sin (radians a), thrust b * cos (radians a))))
         else Inr acceleration)"

text \<open>\<open>Body.get_state\<close>: indexing the number 0 left by the kill key raises.\<close>

definition Body_get_state :: "store \<Rightarrow> nat \<Rightarrow> pyerror + real list" where
  "Body_get_state st self =
     (let b = objects st ! self; p = arrays st ! position b
      in case velocity b of
           VNum n \<Rightarrow> Inl TypeError
         | VArr va \<Rightarrow> Inr [fst p, snd p, fst (arrays st ! va), snd (arrays st ! va)])"

text \<open>\<open>Body.update_rocket_controls\<close>: four independent key tests, in source order.\<close>

definition update_rocket_controls :: "keys \<Rightarrow> nat \<Rightarrow> store \<Rightarrow> pyerror + store" where
  "update_rocket_controls ks self st =
     (let b = objects st ! self in
      if is_rocket b then
        (if (K_LEFT ks \<or> K_RIGHT ks) \<and> angle b = None then Inl TypeError
         else
           (let b1 = (if K_LEFT ks then b\<lparr>angle := map_option (\<lambda>a. a + 5) (angle b)\<rparr> else b);
                b2 = (if K_RIGHT ks then b1\<lparr>angle := map_option (\<lambda>a. a - 5) (angle b1)\<rparr> else b1);
                b3 = (if K_UP ks then b2\<lparr>thrust := 6\<rparr> else b2\<lparr>thrust := 0\<rparr>);
                b4 = (if K_DOWN ks then b3\<lparr>velocity := VNum 0\<rparr> else b3)
            in Inr (st\<lparr>objects := (objects st)[self := b4]\<rparr>)))
      else Inr st)"

section \<open>System\<close>

text \<open>
  \<open>System.__init__\<close>. \<open>int(len(state)/4)\<close> is the length divided by 4, rounded down,
  and the largest index read, \<open>3 + 4 * body\<close>, is then below the length.
\<close>

fun init_loop :: "real list \<Rightarrow> nat list \<Rightarrow> nat list \<Rightarrow> store \<Rightarrow> nat list \<times> store" where
  "init_loop state [] bs st = (bs, st)"
| "init_loop state (b # rest) bs st =
     (let n = b * 4;
          (r, st') = Body_init 1 (state ! (0 + n), state ! (1 + n))
                                 (state ! (2 + n), state ! (3 + n)) False st
      in init_loop state rest (bs @ [r]) st')"

definition System_init ::
  "real \<Rightarrow> real list option \<Rightarrow> nat list option \<Rightarrow> store \<Rightarrow> system \<times> store" where
  "System_init g state bs st =
     (case state of
        Some s \<Rightarrow>
          (let (refs, st') = init_loop s [0 ..< length s div 4] [] st
           in (\<lparr>G = g, bodies = Some refs\<rparr>, st'))
      | None \<Rightarrow> (\<lparr>G = g, bodies = bs\<rparr>, st))"

text \<open>\<open>System.compute_accelerations\<close>: iterating over \<open>None\<close> raises.\<close>

fun accelerations_loop ::
  "store \<Rightarrow> real \<Rightarrow> nat list \<Rightarrow> nat list \<Rightarrow> vec2 list \<Rightarrow> pyerror + vec2 list" where
  "accelerations_loop st g all_bodies [] accelerations = Inr accelerations"
| "accelerations_loop st g all_bodies (b # rest) accelerations =
     (let other_bodies = filter (\<lambda>x. x \<noteq> b) all_bodies
      in case compute_acceleration st b other_bodies g default_softening of
           Inl e \<Rightarrow> Inl e
         | Inr a \<Rightarrow> accelerations_loop st g all_bodies rest (accelerations @ [a]))"

definition compute_accelerations :: "store \<Rightarrow> system \<Rightarrow> pyerror + vec2 list" where
  "compute_accelerations st sys =
     (case bodies sys of
        None \<Rightarrow> Inl TypeError
      | Some bs \<Rightarrow> accelerations_loop st (G sys) bs bs [])"

text \<open>\<open>System.get_state\<close>.\<close>

fun get_state_loop :: "store \<Rightarrow> nat list \<Rightarrow> real list \<Rightarrow> pyerror + real list" where
  "get_state_loop st [] state = Inr state"
| "get_state_loop st (b # rest) state =
     (case Body_get_state st b of
        Inl e \<Rightarrow> Inl e
      | Inr body_state \<Rightarrow> get_state_loop st rest (state @ body_state))"

definition get_state :: "store \<Rightarrow> system \<Rightarrow> pyerror + real list" where
  "get_state st sys =
     (case bodies sys of
        None \<Rightarrow> Inl TypeError
      | Some bs \<Rightarrow> get_state_loop st bs [])"

text \<open>
  \<open>System.integrate\<close>. \<open>body.position += ...\<close> writes into the array the attribute
  refers to. \<open>body.velocity += ...\<close> does the same when the attribute is an array; when
  it is the number 0 the sum is a new array and the attribute is rebound to it.
  \<open>body.position.copy()\<close> allocates a new array.
\<close>

definition enumerate_list :: "'a list \<Rightarrow> (nat \<times> 'a) list" where
  "enumerate_list xs = zip [0 ..< length xs] xs"

definition update_position :: "vec2 \<Rightarrow> real \<Rightarrow> nat \<Rightarrow> store \<Rightarrow> store" where
  "update_position a dt r st =
     (let b = objects st ! r;
          half = smul (dt\<^sup>2) (smul (1 / 2) a);
          step = (case velocity b of
                    VArr va \<Rightarrow> vadd (smul dt (arrays st ! va)) half
                  | VNum n \<Rightarrow> sadd (n * dt) half)
      in st\<lparr>arrays := (arrays st)[position b := vadd (arrays st ! position b) step]\<rparr>)"

fun position_loop :: "vec2 list \<Rightarrow> real \<Rightarrow> (nat \<times> nat) list \<Rightarrow> store \<Rightarrow> store" where
  "position_loop accelerations dt [] st = st"
| "position_loop accelerations dt ((i, b) # rest) st =
     position_loop accelerations dt rest (update_position (accelerations ! i) dt b st)"

definition update_velocity :: "vec2 \<Rightarrow> vec2 \<Rightarrow> real \<Rightarrow> nat \<Rightarrow> store \<Rightarrow> store" where
  "update_velocity a0 a1 dt r st =
     (let b = objects st ! r;
          dv = smul dt (smul (1 / 2) (vadd a0 a1))
      in case velocity b of
           VArr va \<Rightarrow> st\<lparr>arrays := (arrays st)[va := vadd (arrays st ! va) dv]\<rparr>
         | VNum n \<Rightarrow>
             st\<lparr>arrays := arrays st @ [sadd n dv],
                objects := (objects st)[r := b\<lparr>velocity := VArr (length (arrays st))\<rparr>]\<rparr>)"

definition append_history :: "nat \<Rightarrow> store \<Rightarrow> store" where
  "append_history r st =
     (let b = objects st ! r;
          c = length (arrays st);
          h = position_history b @ [c];
          h' = (if length h > 200000 then tl h else h)
      in st\<lparr>arrays := arrays st @ [arrays st ! position b],
            objects := (objects st)[r := b\<lparr>position_history := h'\<rparr>]\<rparr>)"

fun velocity_loop ::
  "vec2 list \<Rightarrow> vec2 list \<Rightarrow> real \<Rightarrow> (nat \<times> nat) list \<Rightarrow> store \<Rightarrow> store" where
  "velocity_loop accelerations new_accelerations dt [] st = st"
| "velocity_loop accelerations new_accelerations dt ((i, b) # rest) st =
     velocity_loop accelerations new_accelerations dt rest
       (append_history b
          (update_velocity (accelerations ! i) (new_accelerations ! i) dt b st))"

definition integrate :: "store \<Rightarrow> system \<Rightarrow> real \<Rightarrow> pyerror + store" where
  "integrate st sys dt =
     (case compute_accelerations st sys of
        Inl e \<Rightarrow> Inl e
      | Inr accelerations \<Rightarrow>
          (case bodies sys of
             None \<Rightarrow> Inl TypeError
           | Some bs \<Rightarrow>
               (let st1 = position_loop accelerations dt (enumerate_list bs) st
                in case compute_accelerations st1 sys of
                     Inl e \<Rightarrow> Inl e
                   | Inr new_accelerations \<Rightarrow>
                       Inr (velocity_loop accelerations new_accelerations dt
                              (enumerate_list bs) st1))))"

text \<open>Repeated ticks, as the main loop calls \<open>integrate\<close> once per frame.\<close>

fun ticks :: "store \<Rightarrow> system \<Rightarrow> real list \<Rightarrow> pyerror + store" where
  "ticks st sys [] = Inr st"
| "ticks st sys (dt # dts) =
     (case integrate st sys dt of
        Inl e \<Rightarrow> Inl e
      | Inr st' \<Rightarrow> ticks st' sys dts)"

section \<open>Initial configurations\<close>

definition empty_store :: store where
  "empty_store = \<lparr>arrays = [], objects = []\<rparr>"

text \<open>\<open>generate()\<close>: three unit masses and the rocket.\<close>

definition generate :: "system \<times> store" where
  "generate =
     (let (body1, s1) = Body_init 1 (0, 0) (687546 / 1000000, 106785 / 100000) False empty_store;
          (body2, s2) = Body_init 1 (- 1, 0) (- 343773 / 1000000, - 533925 / 1000000) False s1;
          (body3, s3) = Body_init 1 (1, 0) (- 343773 / 1000000, - 533925 / 1000000) False s2;
          (body4, s4) = Body_init (1 / 10000) (0, 12 / 10) (0, 0) True s3
      in System_init default_G None (Some [body1, body2, body3, body4]) s4)"

text \<open>
  The two-body scenario of the specification: a controllable body of mass \<open>m\<close> at
  \<open>[0, 1.2]\<close> and a passive unit mass at the origin, both at rest, after one pass of the
  control adapter with no key pressed (thrust disengaged).
\<close>

definition no_keys :: keys where
  "no_keys = \<lparr>K_LEFT = False, K_RIGHT = False, K_UP = False, K_DOWN = False\<rparr>"

definition kill_key :: keys where
  "kill_key = \<lparr>K_LEFT = False, K_RIGHT = False, K_UP = False, K_DOWN = True\<rparr>"

definition scenario :: "real \<Rightarrow> system \<times> store" where
  "scenario m =
     (let (rocket, s1) = Body_init m (0, 12 / 10) (0, 0) True empty_store;
          (planet, s2) = Body_init 1 (0, 0) (0, 0) False s1;
          (sys, s3) = System_init default_G None (Some [rocket, planet]) s2
      in case update_rocket_controls no_keys rocket s3 of
           Inl e \<Rightarrow> (sys, s3)
         | Inr s4 \<Rightarrow> (sys, s4))"

text \<open>Two unit masses constructed at the same point.\<close>

definition coincident_pair :: store where
  "coincident_pair =
     snd (Body_init 1 (3, 4) (0, 0) False (snd (Body_init 1 (3, 4) (0, 0) False empty_store)))"

section \<open>The specification's reading of a store\<close>

text \<open>
  The specification describes a body by values: its mass, position, velocity, variant
  and trajectory history. \<open>view\<close> reads these off the store; a velocity that is the
  number \<open>n\<close> is read as NumPy broadcasts it, \<open>[n, n]\<close>.
\<close>

record body_view =
  v_mass :: real
  v_position :: vec2
  v_velocity :: vec2
  isControllable :: bool
  thrustMagnitude :: real
  headingAngleDegrees :: "real option"
  trajectoryHistory :: "vec2 list"

definition view :: "store \<Rightarrow> nat \<Rightarrow> body_view" where
  "view st r =
     (let b = objects st ! r in
      \<lparr>v_mass = mass b,
       v_position = arrays st ! position b,
       v_velocity = (case velocity b of VArr va \<Rightarrow> arrays st ! va | VNum n \<Rightarrow> (n, n)),
       isControllable = is_rocket b,
       thrustMagnitude = thrust b,
       headingAngleDegrees = angle b,
       trajectoryHistory = map (\<lambda>a. arrays st ! a) (position_history b)\<rparr>)"

text \<open>Section 4.1 of the specification, in its words.\<close>

primrec vsum :: "vec2 list \<Rightarrow> vec2" where
  "vsum [] = zeros2"
| "vsum (x # xs) = vadd x (vsum xs)"

definition gravity_term :: "real \<Rightarrow> real \<Rightarrow> vec2 \<Rightarrow> real \<Rightarrow> vec2 \<Rightarrow> vec2" where
  "gravity_term g softening p_self m_o p_o =
     vdiv (smul (g * m_o) (vsub p_o p_self))
          (max (linalg_norm (vsub p_o p_self) ^ 3) (softening ^ 3))"

definition thrust_vector :: "real \<Rightarrow> real \<Rightarrow> vec2" where
  "thrust_vector magnitude heading =
     smul magnitude (- sin (radians heading), cos (radians heading))"

definition computeAcceleration_spec ::
  "real \<Rightarrow> real \<Rightarrow> body_view list \<Rightarrow> nat \<Rightarrow> vec2" where
  "computeAcceleration_spec g softening vs i =
     (if isControllable (vs ! i) then
        (case headingAngleDegrees (vs ! i) of
           Some h \<Rightarrow> thrust_vector (thrustMagnitude (vs ! i)) h
         | None \<Rightarrow> zeros2)
      else vsum (map (\<lambda>j. gravity_term g softening (v_position (vs ! i))
                             (v_mass (vs ! j)) (v_position (vs ! j)))
                     (filter (\<lambda>j. j \<noteq> i) [0 ..< length vs])))"

text \<open>Section 4.2 of the specification, steps 1 to 5, in its words.\<close>

definition evict :: "'a list \<Rightarrow> 'a list" where
  "evict h = (if length h > 200000 then tl h else h)"

definition drift :: "vec2 \<Rightarrow> real \<Rightarrow> body_view \<Rightarrow> body_view" where
  "drift a0 dt v =
     v\<lparr>v_position := vadd (v_position v)
                          (vadd (smul dt (v_velocity v)) (smul (dt\<^sup>2) (smul (1 / 2) a0)))\<rparr>"

definition kick :: "vec2 \<Rightarrow> vec2 \<Rightarrow> real \<Rightarrow> body_view \<Rightarrow> body_view" where
  "kick a0 a1 dt v =
     v\<lparr>v_velocity := vadd (v_velocity v) (smul dt (smul (1 / 2) (vadd a0 a1))),
       trajectoryHistory := evict (trajectoryHistory v @ [v_position v])\<rparr>"

definition integrate_spec :: "real \<Rightarrow> real \<Rightarrow> body_view list \<Rightarrow> body_view list" where
  "integrate_spec g dt vs =
     (let n = length vs;
          a0 = map (computeAcceleration_spec g (18 / 100) vs) [0 ..< n];
          vs1 = map (\<lambda>i. drift (a0 ! i) dt (vs ! i)) [0 ..< n];
          a1 = map (computeAcceleration_spec g (18 / 100) vs1) [0 ..< n]
      in map (\<lambda>i. kick (a0 ! i) (a1 ! i) dt (vs1 ! i)) [0 ..< n])"

text \<open>The four numbers \<open>System.__init__\<close> reads for body \<open>b\<close>.\<close>

definition chunk :: "real list \<Rightarrow> nat \<Rightarrow> real list" where
  "chunk state b = [state ! (0 + b * 4), state ! (1 + b * 4), state ! (2 + b * 4),
                    state ! (3 + b * 4)]"

section \<open>Well-formed stores\<close>

text \<open>
  What the constructors establish and every operation keeps: the system lists each Body
  object once, every reference and address is allocated, a rocket has a heading, each
  body owns its position and velocity arrays, and no history entry is one of those
  arrays.
\<close>

definition vel_addrs :: "store \<Rightarrow> nat \<Rightarrow> nat set" where
  "vel_addrs st r = (case velocity (objects st ! r) of VArr va \<Rightarrow> {va} | VNum n \<Rightarrow> {})"

definition pos_addr :: "store \<Rightarrow> nat \<Rightarrow> nat" where
  "pos_addr st r = position (objects st ! r)"

definition hist_addrs :: "store \<Rightarrow> nat \<Rightarrow> nat set" where
  "hist_addrs st r = set (position_history (objects st ! r))"

definition valid :: "store \<Rightarrow> nat list \<Rightarrow> bool" where
  "valid st bs \<longleftrightarrow>
     distinct bs \<and>
     (\<forall>r \<in> set bs.
        r < length (objects st) \<and>
        pos_addr st r < length (arrays st) \<and>
        (\<forall>a \<in> vel_addrs st r. a < length (arrays st)) \<and>
        (\<forall>a \<in> hist_addrs st r. a < length (arrays st)) \<and>
        (is_rocket (objects st ! r) \<longrightarrow> angle (objects st ! r) \<noteq> None) \<and>
        (\<forall>r' \<in> set bs.
           pos_addr st r \<notin> vel_addrs st r' \<and>
           pos_addr st r \<notin> hist_addrs st r' \<and>
           vel_addrs st r \<inter> hist_addrs st r' = {} \<and>
           (r \<noteq> r' \<longrightarrow> pos_addr st r \<noteq> pos_addr st r' \<and>
                         vel_addrs st r \<inter> vel_addrs st r' = {})))"

definition live_addrs :: "store \<Rightarrow> nat list \<Rightarrow> nat set" where
  "live_addrs st bs = (\<Union>r \<in> set bs. insert (pos_addr st r) (vel_addrs st r))"

section \<open>Vector arithmetic\<close>

lemma linalg_norm_nonneg: "0 \<le> linalg_norm r"
  by (simp add: linalg_norm_def)

lemma linalg_norm_scaled:
  "linalg_norm (vdiv (smul k r) m) = \<bar>k\<bar> * linalg_norm r / \<bar>m\<bar>"
proof -
  obtain x y where r: "r = (x, y)" by (cases r)
  have "(k * x / m)\<^sup>2 + (k * y / m)\<^sup>2 = (k / m)\<^sup>2 * (x\<^sup>2 + y\<^sup>2)"
    by (simp add: power_mult_distrib power_divide add_divide_distrib distrib_left)
  then have "sqrt ((k * x / m)\<^sup>2 + (k * y / m)\<^sup>2) = \<bar>k / m\<bar> * sqrt (x\<^sup>2 + y\<^sup>2)"
    by (simp add: real_sqrt_mult)
  then show ?thesis
    by (simp add: r linalg_norm_def)
qed

lemma thrust_norm: "linalg_norm (- (t * sin x), t * cos x) = \<bar>t\<bar>"
proof -
  have "(t * sin x)\<^sup>2 + (t * cos x)\<^sup>2 = t\<^sup>2 * ((sin x)\<^sup>2 + (cos x)\<^sup>2)"
    unfolding power_mult_distrib distrib_left ..
  then show ?thesis by (simp add: linalg_norm_def)
qed

lemma vadd_zeros2 [simp]: "vadd zeros2 v = v" "vadd v zeros2 = v"
  by (cases v; simp add: zeros2_def)+

section \<open>Initial configurations, evaluated\<close>

lemma generate_store:
  "snd generate =
     \<lparr>arrays = [(0, 0), (687546 / 1000000, 106785 / 100000),
                (- 1, 0), (- 343773 / 1000000, - 533925 / 1000000),
                (1, 0), (- 343773 / 1000000, - 533925 / 1000000),
                (0, 12 / 10), (0, 0)],
      objects = [\<lparr>mass = 1, position = 0, velocity = VArr 1, is_rocket = False, thrust = 0,
                   angle = None, position_history = []\<rparr>,
                 \<lparr>mass = 1, position = 2, velocity = VArr 3, is_rocket = False, thrust = 0,
                   angle = None, position_history = []\<rparr>,
                 \<lparr>mass = 1, position = 4, velocity = VArr 5, is_rocket = False, thrust = 0,
                   angle = None, position_history = []\<rparr>,
                 \<lparr>mass = 1 / 10000, position = 6, velocity = VArr 7, is_rocket = True,
                   thrust = 1 / 10000, angle = Some 0, position_history = []\<rparr>]\<rparr>"
  by (simp add: generate_def Body_init_def System_init_def empty_store_def)

lemma generate_system: "fst generate = \<lparr>G = 1, bodies = Some [0, 1, 2, 3]\<rparr>"
  by (simp add: generate_def Body_init_def System_init_def empty_store_def default_G_def)

lemma valid_generate: "valid (snd generate) [0, 1, 2, 3]"
  by (simp add: generate_store valid_def pos_addr_def vel_addrs_def hist_addrs_def)

lemma coincident_pair_store:
  "coincident_pair =
     \<lparr>arrays = [(3, 4), (0, 0), (3, 4), (0, 0)],
      objects = [\<lparr>mass = 1, position = 0, velocity = VArr 1, is_rocket = False, thrust = 0,
                   angle = None, position_history = []\<rparr>,
                 \<lparr>mass = 1, position = 2, velocity = VArr 3, is_rocket = False, thrust = 0,
                   angle = None, position_history = []\<rparr>]\<rparr>"
  by (simp add: coincident_pair_def Body_init_def empty_store_def)

section \<open>The thrust of the controllable body\<close>

text \<open>
  C3. For a controllable body \<open>compute_acceleration\<close> returns the thrust vector
  \<open>(- thrust * sin heading, thrust * cos heading)\<close> with the heading converted from
  degrees, whatever the other bodies, their positions and masses, \<open>G\<close> and the softening
  are; its magnitude is the absolute value of the thrust attribute (which the program
  only ever sets to 0.0001, 6 or 0).
\<close>

theorem rocket_acceleration_is_thrust:
  assumes "is_rocket (objects st ! self)" and "angle (objects st ! self) = Some a"
  shows "compute_acceleration st self other_bodies g softening =
           Inr (- thrust (objects st ! self) * sin (a * pi / 180),
                thrust (objects st ! self) * cos (a * pi / 180))
         \<and> (\<forall>st' others' g' softening'.
               objects st' ! self = objects st ! self \<longrightarrow>
               compute_acceleration st' self others' g' softening' =
               compute_acceleration st self other_bodies g softening)
         \<and> linalg_norm (- thrust (objects st ! self) * sin (a * pi / 180),
                         thrust (objects st ! self) * cos (a * pi / 180))
             = \<bar>thrust (objects st ! self)\<bar>"
  using assms
  by (simp add: compute_acceleration_def Let_def zeros2_def radians_def thrust_norm)

theorem rocket_acceleration_is_thrust_witness:
  "compute_acceleration (snd generate) 3 [0, 1, 2] 1 (18 / 100) = Inr (0, 1 / 10000)"
  using rocket_acceleration_is_thrust [of "snd generate" 3 0 "[0, 1, 2]" 1 "18 / 100"]
  by (simp add: generate_store)

section \<open>The softened gravity term\<close>

lemma softened_floor:
  fixes d s :: real
  assumes "0 \<le> d" "0 < s"
  shows "d * s\<^sup>2 \<le> max (d ^ 3) (s ^ 3)"
proof (cases "d \<le> s")
  case True
  have "d * s\<^sup>2 \<le> s * s\<^sup>2" using True assms by (intro mult_right_mono) auto
  also have "\<dots> = s ^ 3" by (simp add: power3_eq_cube power2_eq_square)
  finally show ?thesis by simp
next
  case False
  then have "s\<^sup>2 \<le> d\<^sup>2" using assms by (intro power_mono) auto
  then have "d * s\<^sup>2 \<le> d * d\<^sup>2" using assms by (intro mult_left_mono) auto
  also have "\<dots> = d ^ 3" by (simp add: power3_eq_cube power2_eq_square)
  finally show ?thesis by simp
qed

lemma gravity_term_bound:
  assumes "0 \<le> k" "0 < s"
  shows "linalg_norm (vdiv (smul k r) (max (linalg_norm r ^ 3) (s ^ 3))) \<le> k / s\<^sup>2"
proof -
  let ?d = "linalg_norm r"
  let ?m = "max (?d ^ 3) (s ^ 3)"
  have mpos: "0 < ?m" using assms by (simp add: less_max_iff_disj)
  have "?d * s\<^sup>2 \<le> ?m" using softened_floor[OF linalg_norm_nonneg assms(2)] .
  then have "k * (?d * s\<^sup>2) \<le> k * ?m" using assms by (intro mult_left_mono) auto
  then have "k * ?d / ?m \<le> k / s\<^sup>2"
    using mpos assms by (simp add: field_simps)
  then show ?thesis using mpos assms by (simp add: linalg_norm_scaled)
qed

text \<open>
  C6. The acceleration one body induces on a passive body has magnitude at most
  \<open>G * mass / softening\<^sup>2\<close> at every separation, coincident positions included, and the
  denominator \<open>max (distance ^ 3) (softening ^ 3)\<close> is positive, for a non-negative \<open>G\<close>
  and mass and a positive softening.
\<close>

theorem softened_gravity_bounded:
  assumes "\<not> is_rocket (objects st ! self)" and "other \<noteq> self"
    and "0 \<le> g" and "0 \<le> mass (objects st ! other)" and "0 < softening"
  shows "(\<exists>a. compute_acceleration st self [other] g softening = Inr a
            \<and> linalg_norm a \<le> g * mass (objects st ! other) / softening\<^sup>2)
         \<and> 0 < max (linalg_norm (vsub (arrays st ! position (objects st ! other))
                                      (arrays st ! position (objects st ! self))) ^ 3)
                   (softening ^ 3)"
proof -
  let ?r = "vsub (arrays st ! position (objects st ! other))
                 (arrays st ! position (objects st ! self))"
  let ?k = "g * mass (objects st ! other)"
  have k: "0 \<le> ?k" using assms by simp
  have "\<exists>a. compute_acceleration st self [other] g softening = Inr a
           \<and> linalg_norm a \<le> ?k / softening\<^sup>2"
    using assms(1,2) gravity_term_bound[OF k assms(5), of ?r]
    by (simp add: compute_acceleration_def Let_def)
  moreover have "0 < max (linalg_norm ?r ^ 3) (softening ^ 3)"
    using assms(5) by (simp add: less_max_iff_disj)
  ultimately show ?thesis by simp
qed

theorem softened_gravity_bounded_witness:
  "(\<exists>a. compute_acceleration coincident_pair 0 [1] 1 (18 / 100) = Inr a
       \<and> linalg_norm a \<le> 1 * 1 / (18 / 100)\<^sup>2)"
  using softened_gravity_bounded [of coincident_pair 0 1 1 "18 / 100"]
  by (simp add: coincident_pair_store)

section \<open>Accelerations, read through the view\<close>

lemma vadd_assoc: "vadd (vadd a b) c = vadd a (vadd b c)"
  by (cases a; cases b; cases c) simp

lemma vadd_commute: "vadd a b = vadd b a"
  by (cases a; cases b) simp

lemma gravity_loop_vsum:
  "gravity_loop st self g softening others acc =
     vadd acc (vsum (map (\<lambda>other. gravity_term g softening
                             (arrays st ! position (objects st ! self))
                             (mass (objects st ! other))
                             (arrays st ! position (objects st ! other)))
                        (filter (\<lambda>other. other \<noteq> self) others)))"
  by (induction others arbitrary: acc)
     (simp_all add: Let_def gravity_term_def vadd_assoc)

lemma filter_neq_nth:
  assumes "distinct xs" and "i < length xs"
  shows "filter (\<lambda>x. x \<noteq> xs ! i) xs = map (\<lambda>j. xs ! j) (filter (\<lambda>j. j \<noteq> i) [0 ..< length xs])"
proof -
  have "filter (\<lambda>x. x \<noteq> xs ! i) (map (\<lambda>j. xs ! j) [0 ..< length xs])
          = map (\<lambda>j. xs ! j) (filter (\<lambda>j. xs ! j \<noteq> xs ! i) [0 ..< length xs])"
    by (simp add: filter_map comp_def)
  also have "filter (\<lambda>j. xs ! j \<noteq> xs ! i) [0 ..< length xs]
               = filter (\<lambda>j. j \<noteq> i) [0 ..< length xs]"
    using assms by (intro filter_cong) (auto simp: nth_eq_iff_index_eq)
  finally show ?thesis by (simp add: map_nth)
qed

lemma view_simps:
  "v_mass (view st r) = mass (objects st ! r)"
  "v_position (view st r) = arrays st ! position (objects st ! r)"
  "v_velocity (view st r) =
     (case velocity (objects st ! r) of VArr va \<Rightarrow> arrays st ! va | VNum n \<Rightarrow> (n, n))"
  "isControllable (view st r) = is_rocket (objects st ! r)"
  "thrustMagnitude (view st r) = thrust (objects st ! r)"
  "headingAngleDegrees (view st r) = angle (objects st ! r)"
  "trajectoryHistory (view st r) = map (\<lambda>a. arrays st ! a) (position_history (objects st ! r))"
  by (simp_all add: view_def Let_def)

lemma compute_acceleration_view:
  assumes "distinct bs" and "i < length bs"
    and "is_rocket (objects st ! (bs ! i)) \<longrightarrow> angle (objects st ! (bs ! i)) \<noteq> None"
  shows "compute_acceleration st (bs ! i) (filter (\<lambda>x. x \<noteq> bs ! i) bs) g softening =
           Inr (computeAcceleration_spec g softening (map (view st) bs) i)"
proof (cases "is_rocket (objects st ! (bs ! i))")
  case True
  then obtain a where "angle (objects st ! (bs ! i)) = Some a" using assms(3) by auto
  then show ?thesis using True assms(2)
    by (simp add: compute_acceleration_def computeAcceleration_spec_def view_simps
                  thrust_vector_def zeros2_def Let_def)
next
  case False
  let ?pull = "\<lambda>other. gravity_term g softening (arrays st ! position (objects st ! (bs ! i)))
                 (mass (objects st ! other)) (arrays st ! position (objects st ! other))"
  let ?js = "filter (\<lambda>j. j \<noteq> i) [0 ..< length bs]"
  have "filter (\<lambda>x. x \<noteq> bs ! i) (filter (\<lambda>x. x \<noteq> bs ! i) bs) = filter (\<lambda>x. x \<noteq> bs ! i) bs"
    by simp
  then have others: "filter (\<lambda>x. x \<noteq> bs ! i) (filter (\<lambda>x. x \<noteq> bs ! i) bs) = map (\<lambda>j. bs ! j) ?js"
    using filter_neq_nth[OF assms(1,2)] by simp
  have code: "compute_acceleration st (bs ! i) (filter (\<lambda>x. x \<noteq> bs ! i) bs) g softening
                = Inr (vsum (map ?pull (map (\<lambda>j. bs ! j) ?js)))"
    using False unfolding compute_acceleration_def Let_def gravity_loop_vsum others by simp
  have eq: "map (?pull \<circ> (!) bs) ?js
        = map (\<lambda>j. gravity_term g softening (arrays st ! position (objects st ! (bs ! i)))
                 (v_mass (map (view st) bs ! j)) (v_position (map (view st) bs ! j))) ?js"
    by (rule map_cong) (auto simp: view_simps)
  have spec: "computeAcceleration_spec g softening (map (view st) bs) i
        = vsum (map (\<lambda>j. gravity_term g softening (arrays st ! position (objects st ! (bs ! i)))
                 (v_mass (map (view st) bs ! j)) (v_position (map (view st) bs ! j))) ?js)"
    using False assms(2) by (simp add: computeAcceleration_spec_def view_simps)
  show ?thesis unfolding code spec by (simp only: map_map eq)
qed

lemma accelerations_loop_map:
  assumes "\<forall>b \<in> set rest. compute_acceleration st b (filter (\<lambda>x. x \<noteq> b) all_bodies) g
                               default_softening = Inr (f b)"
  shows "accelerations_loop st g all_bodies rest acc = Inr (acc @ map f rest)"
  using assms by (induction rest arbitrary: acc) simp_all

lemma compute_accelerations_view:
  assumes "valid st bs" and "bodies sys = Some bs"
  shows "compute_accelerations st sys =
           Inr (map (computeAcceleration_spec (G sys) (18 / 100) (map (view st) bs))
                    [0 ..< length bs])"
proof -
  let ?f = "\<lambda>i. computeAcceleration_spec (G sys) (18 / 100) (map (view st) bs) i"
  define f where "f b = projr (compute_acceleration st b (filter (\<lambda>x. x \<noteq> b) bs) (G sys)
                                  default_softening)" for b
  have nth: "compute_acceleration st (bs ! i) (filter (\<lambda>x. x \<noteq> bs ! i) bs) (G sys)
               default_softening = Inr (?f i)" if "i < length bs" for i
    using compute_acceleration_view[of bs i st "G sys" default_softening] assms(1) that
    by (simp add: valid_def default_softening_def)
  have "\<forall>b \<in> set bs. compute_acceleration st b (filter (\<lambda>x. x \<noteq> b) bs) (G sys)
                          default_softening = Inr (f b)"
    using nth by (auto simp: f_def in_set_conv_nth)
  then have "accelerations_loop st (G sys) bs bs [] = Inr (map f bs)"
    using accelerations_loop_map[of bs st bs "G sys" f "[]"] by simp
  moreover have "map f bs = map ?f [0 ..< length bs]"
    using nth by (intro nth_equalityI) (simp_all add: f_def)
  ultimately show ?thesis using assms(2) by (simp add: compute_accelerations_def)
qed

section \<open>The position pass\<close>

lemma update_position_objects [simp]: "objects (update_position a dt r st) = objects st"
  by (simp add: update_position_def Let_def)

lemma update_position_length [simp]:
  "length (arrays (update_position a dt r st)) = length (arrays st)"
  by (simp add: update_position_def Let_def)

lemma valid_same:
  "objects st' = objects st \<Longrightarrow> length (arrays st') = length (arrays st) \<Longrightarrow>
   valid st' bs = valid st bs"
  by (simp add: valid_def pos_addr_def vel_addrs_def hist_addrs_def)

lemma sadd_as_vadd: "sadd (n * dt) h = vadd (smul dt (n, n)) h"
  by (cases h) (simp add: mult.commute)

lemma update_position_arrays:
  "arrays (update_position a dt r st) =
     (arrays st)[pos_addr st r := v_position (drift a dt (view st r))]"
  by (simp add: update_position_def Let_def pos_addr_def drift_def view_simps sadd_as_vadd
           split: velocity_value.splits)

lemma view_update_position:
  assumes "valid st bs" and "r \<in> set bs" and "r' \<in> set bs"
  shows "view (update_position a dt r st) r' =
           (if r' = r then drift a dt (view st r) else view st r')"
proof -
  let ?st = "update_position a dt r st"
  have sep: "pos_addr st r \<notin> vel_addrs st r'" "pos_addr st r \<notin> hist_addrs st r'"
    "r \<noteq> r' \<Longrightarrow> pos_addr st r \<noteq> pos_addr st r'" "pos_addr st r < length (arrays st)"
    using assms unfolding valid_def by blast+
  have "\<forall>x \<in> set (position_history (objects st ! r')). x \<noteq> pos_addr st r"
    using sep(2) by (auto simp: hist_addrs_def)
  then have hist: "map (\<lambda>a. arrays ?st ! a) (position_history (objects st ! r'))
            = map (\<lambda>a. arrays st ! a) (position_history (objects st ! r'))"
    by (intro map_cong) (auto simp: update_position_arrays)
  have vel: "(case velocity (objects st ! r') of VArr va \<Rightarrow> arrays ?st ! va | VNum n \<Rightarrow> (n, n))
           = (case velocity (objects st ! r') of VArr va \<Rightarrow> arrays st ! va | VNum n \<Rightarrow> (n, n))"
    using sep(1) by (auto simp: update_position_arrays vel_addrs_def split: velocity_value.splits)
  have pos: "arrays ?st ! position (objects st ! r') =
               (if r' = r then v_position (drift a dt (view st r))
                else arrays st ! position (objects st ! r'))"
    using sep(3,4) by (auto simp: update_position_arrays pos_addr_def)
  show ?thesis
    by (rule body_view.equality) (simp_all add: view_simps hist vel pos drift_def)
qed

lemma position_loop_preserves:
  "objects (position_loop accs dt ps st) = objects st \<and>
   length (arrays (position_loop accs dt ps st)) = length (arrays st)"
  by (induction ps arbitrary: st) auto

lemma position_loop_frame:
  assumes "snd ` set ps \<subseteq> set bs" and "a \<notin> live_addrs st bs"
  shows "arrays (position_loop accs dt ps st) ! a = arrays st ! a"
  using assms
proof (induction ps arbitrary: st)
  case Nil
  then show ?case by simp
next
  case (Cons p ps)
  obtain i r where p: "p = (i, r)" by (cases p)
  let ?st = "update_position (accs ! i) dt r st"
  have live: "live_addrs ?st bs = live_addrs st bs"
    by (simp add: live_addrs_def pos_addr_def vel_addrs_def)
  have "r \<in> set bs" using Cons.prems p by auto
  then have "a \<noteq> pos_addr st r" using Cons.prems by (auto simp: live_addrs_def)
  then have "arrays ?st ! a = arrays st ! a" by (simp add: update_position_arrays)
  then show ?case using Cons.IH[of ?st] Cons.prems live p by simp
qed

lemma position_loop_views:
  assumes "valid st bs" and "distinct (map snd ps)" and "snd ` set ps \<subseteq> set bs"
    and "r \<in> set bs"
  shows "view (position_loop accs dt ps st) r =
           (case map_of (map prod.swap ps) r of
              None \<Rightarrow> view st r
            | Some i \<Rightarrow> drift (accs ! i) dt (view st r))"
  using assms
proof (induction ps arbitrary: st)
  case Nil
  then show ?case by simp
next
  case (Cons p ps)
  obtain i q where p: "p = (i, q)" by (cases p)
  let ?st = "update_position (accs ! i) dt q st"
  have q: "q \<in> set bs" using Cons.prems(3) p by auto
  have v: "valid ?st bs" using Cons.prems(1) valid_same[of ?st st bs] by simp
  have d: "distinct (map snd ps)" "snd ` set ps \<subseteq> set bs" "q \<notin> snd ` set ps"
    using Cons.prems(2,3) p by auto
  note IH = Cons.IH[OF v d(1) d(2) Cons.prems(4)]
  have step: "view ?st r = (if r = q then drift (accs ! i) dt (view st q) else view st r)"
    by (rule view_update_position[OF Cons.prems(1) q Cons.prems(4)])
  have loop: "position_loop accs dt (p # ps) st = position_loop accs dt ps ?st"
    by (simp add: p)
  have none: "map_of (map prod.swap ps) q = None"
    using d(3) by (simp add: map_of_eq_None_iff image_image)
  show ?case
  proof (cases "r = q")
    case True
    have "view (position_loop accs dt ps ?st) r = view ?st r"
      using IH none True by simp
    then show ?thesis using step True none unfolding loop by (simp add: p)
  next
    case False
    then show ?thesis unfolding loop IH step by (simp add: p)
  qed
qed

lemma swap_zip: "map prod.swap (zip xs ys) = zip ys xs"
proof (induction xs arbitrary: ys)
  case Nil
  show ?case by simp
next
  case (Cons x xs)
  show ?case by (cases ys) (simp_all add: Cons.IH)
qed

lemma enumerate_lookup:
  assumes "distinct bs" and "i < length bs"
  shows "map_of (map prod.swap (enumerate_list bs)) (bs ! i) = Some i"
proof -
  have "map prod.swap (zip [0 ..< length bs] bs) = zip bs [0 ..< length bs]"
    by (rule swap_zip)
  then show ?thesis
    using map_of_zip_nth[of bs "[0 ..< length bs]" i] assms
    by (simp add: enumerate_list_def)
qed

lemma enumerate_props:
  "map snd (enumerate_list bs) = bs" "snd ` set (enumerate_list bs) = set bs"
  by (simp_all add: enumerate_list_def flip: set_map)

lemma position_pass_views:
  assumes "valid st bs"
  shows "map (view (position_loop accs dt (enumerate_list bs) st)) bs =
           map (\<lambda>i. drift (accs ! i) dt (map (view st) bs ! i)) [0 ..< length bs]"
proof (rule nth_equalityI)
  show "length (map (view (position_loop accs dt (enumerate_list bs) st)) bs) =
        length (map (\<lambda>i. drift (accs ! i) dt (map (view st) bs ! i)) [0 ..< length bs])"
    by simp
next
  fix i assume "i < length (map (view (position_loop accs dt (enumerate_list bs) st)) bs)"
  then have i: "i < length bs" by simp
  have d: "distinct bs" using assms by (simp add: valid_def)
  have "view (position_loop accs dt (enumerate_list bs) st) (bs ! i) =
          drift (accs ! i) dt (view st (bs ! i))"
    using position_loop_views[OF assms, of "enumerate_list bs" "bs ! i" accs dt] d i
    by (simp add: enumerate_props enumerate_lookup)
  then show "map (view (position_loop accs dt (enumerate_list bs) st)) bs ! i =
        map (\<lambda>i. drift (accs ! i) dt (map (view st) bs ! i)) [0 ..< length bs] ! i"
    using i by simp
qed

section \<open>The velocity and history pass\<close>

lemma set_evict: "set (evict h) \<subseteq> set h"
  by (cases h) (auto simp: evict_def)

lemma sadd_pair: "sadd n dv = vadd (n, n) dv"
  by (cases dv) simp

lemma step_VArr:
  assumes "velocity (objects st ! r) = VArr va" and "r < length (objects st)"
  shows "append_history r (update_velocity a0 a1 dt r st) =
           \<lparr>arrays = (arrays st)[va := vadd (arrays st ! va) (smul dt (smul (1 / 2) (vadd a0 a1)))]
                      @ [(arrays st)[va := vadd (arrays st ! va)
                                          (smul dt (smul (1 / 2) (vadd a0 a1)))]
                         ! position (objects st ! r)],
            objects = (objects st)[r := (objects st ! r)
                         \<lparr>position_history :=
                            evict (position_history (objects st ! r) @ [length (arrays st)])\<rparr>]\<rparr>"
  using assms by (simp add: append_history_def update_velocity_def Let_def evict_def)

lemma step_VNum:
  assumes "velocity (objects st ! r) = VNum n" and "r < length (objects st)"
  shows "append_history r (update_velocity a0 a1 dt r st) =
           \<lparr>arrays = arrays st @ [vadd (n, n) (smul dt (smul (1 / 2) (vadd a0 a1))),
                                  (arrays st @ [vadd (n, n) (smul dt (smul (1 / 2) (vadd a0 a1)))])
                                  ! position (objects st ! r)],
            objects = (objects st)[r := (objects st ! r)
                         \<lparr>velocity := VArr (length (arrays st)),
                          position_history :=
                            evict (position_history (objects st ! r) @ [Suc (length (arrays st))])\<rparr>]\<rparr>"
  using assms by (simp add: append_history_def update_velocity_def Let_def evict_def sadd_pair)

lemma validD:
  assumes "valid st bs" and "r \<in> set bs"
  shows "r < length (objects st)" and "pos_addr st r < length (arrays st)"
    and "\<forall>a \<in> vel_addrs st r. a < length (arrays st)"
    and "\<forall>a \<in> hist_addrs st r. a < length (arrays st)"
    and "is_rocket (objects st ! r) \<Longrightarrow> angle (objects st ! r) \<noteq> None"
  using assms unfolding valid_def by blast+

lemma valid_sepD:
  assumes "valid st bs" and "r \<in> set bs" and "r' \<in> set bs"
  shows "pos_addr st r \<notin> vel_addrs st r'" and "pos_addr st r \<notin> hist_addrs st r'"
    and "vel_addrs st r \<inter> hist_addrs st r' = {}"
    and "r \<noteq> r' \<Longrightarrow> pos_addr st r \<noteq> pos_addr st r'"
    and "r \<noteq> r' \<Longrightarrow> vel_addrs st r \<inter> vel_addrs st r' = {}"
  using assms unfolding valid_def by blast+

lemma velocity_step_accessors:
  fixes aold anew :: vec2 and dt :: real
  assumes "r < length (objects st)"
  defines "st' \<equiv> append_history r (update_velocity aold anew dt r st)"
  shows "length (objects st') = length (objects st)
    \<and> pos_addr st' x = pos_addr st x
    \<and> is_rocket (objects st' ! x) = is_rocket (objects st ! x)
    \<and> angle (objects st' ! x) = angle (objects st ! x)
    \<and> mass (objects st' ! x) = mass (objects st ! x)
    \<and> thrust (objects st' ! x) = thrust (objects st ! x)
    \<and> (x \<noteq> r \<longrightarrow> objects st' ! x = objects st ! x)
    \<and> length (arrays st) < length (arrays st')
    \<and> vel_addrs st' x \<subseteq> vel_addrs st x \<union> {length (arrays st)}
    \<and> (vel_addrs st' x \<noteq> vel_addrs st x \<longrightarrow>
           x = r \<and> vel_addrs st x = {} \<and> length (arrays st') = Suc (Suc (length (arrays st))))
    \<and> hist_addrs st' x \<subseteq> hist_addrs st x \<union> {length (arrays st') - 1}"
proof (cases "velocity (objects st ! r)")
  case (VNum n)
  have st': "st' = \<lparr>arrays = arrays st @ [vadd (n, n) (smul dt (smul (1 / 2) (vadd aold anew))),
                                  (arrays st @ [vadd (n, n) (smul dt (smul (1 / 2) (vadd aold anew)))])
                                  ! position (objects st ! r)],
            objects = (objects st)[r := (objects st ! r)
                         \<lparr>velocity := VArr (length (arrays st)),
                          position_history :=
                            evict (position_history (objects st ! r) @ [Suc (length (arrays st))])\<rparr>]\<rparr>"
    unfolding st'_def by (rule step_VNum[OF VNum assms(1)])
  show ?thesis
    using assms(1) VNum set_evict[of "position_history (objects st ! r) @ [Suc (length (arrays st))]"]
    unfolding st'
    by (auto simp add: pos_addr_def vel_addrs_def hist_addrs_def nth_list_update)
next
  case (VArr va)
  have st': "st' = \<lparr>arrays = (arrays st)[va := vadd (arrays st ! va) (smul dt (smul (1 / 2) (vadd aold anew)))]
                      @ [(arrays st)[va := vadd (arrays st ! va)
                                          (smul dt (smul (1 / 2) (vadd aold anew)))]
                         ! position (objects st ! r)],
            objects = (objects st)[r := (objects st ! r)
                         \<lparr>position_history :=
                            evict (position_history (objects st ! r) @ [length (arrays st)])\<rparr>]\<rparr>"
    unfolding st'_def by (rule step_VArr[OF VArr assms(1)])
  show ?thesis
    using assms(1) VArr set_evict[of "position_history (objects st ! r) @ [length (arrays st)]"]
    unfolding st'
    by (auto simp add: pos_addr_def vel_addrs_def hist_addrs_def nth_list_update)
qed

lemma velocity_step_valid:
  fixes a0 a1 :: vec2 and dt :: real
  assumes v: "valid st bs" and r: "r \<in> set bs"
  defines "st' \<equiv> append_history r (update_velocity a0 a1 dt r st)"
  shows "valid st' bs"
proof -
  have rl: "r < length (objects st)" using validD(1)[OF v r] .
  note acc = velocity_step_accessors[OF rl, where aold = a0 and anew = a1 and dt = dt, folded st'_def]
  have len: "length (arrays st) < length (arrays st')" using acc by blast
  have pos: "pos_addr st' x = pos_addr st x" for x using acc by blast
  have vel: "a \<in> vel_addrs st' x \<Longrightarrow> a \<in> vel_addrs st x \<or>
               (a = length (arrays st) \<and> x = r \<and>
                length (arrays st') = Suc (Suc (length (arrays st))))" for a x
    using acc[of x] by blast
  have hist: "a \<in> hist_addrs st' x \<Longrightarrow> a \<in> hist_addrs st x \<or> a = length (arrays st') - 1"
    for a x using acc[of x] by blast
  have rocket: "is_rocket (objects st' ! x) \<Longrightarrow> angle (objects st' ! x) \<noteq> None"
    if "x \<in> set bs" for x
    using acc[of x] validD(5)[OF v that] by simp
  have bounds: "x < length (objects st') \<and> pos_addr st' x < length (arrays st') \<and>
                (\<forall>a \<in> vel_addrs st' x. a < length (arrays st')) \<and>
                (\<forall>a \<in> hist_addrs st' x. a < length (arrays st'))"
    if "x \<in> set bs" for x
  proof (intro conjI ballI)
    show "x < length (objects st')" using acc[of x] validD(1)[OF v that] by simp
    show "pos_addr st' x < length (arrays st')" using pos validD(2)[OF v that] len by simp
    show "a < length (arrays st')" if "a \<in> vel_addrs st' x" for a
      using vel[OF that] validD(3)[OF v \<open>x \<in> set bs\<close>] len by auto
    show "a < length (arrays st')" if "a \<in> hist_addrs st' x" for a
      using hist[OF that] validD(4)[OF v \<open>x \<in> set bs\<close>] len by auto
  qed
  have sep: "pos_addr st' x \<notin> vel_addrs st' y \<and> pos_addr st' x \<notin> hist_addrs st' y \<and>
             vel_addrs st' x \<inter> hist_addrs st' y = {} \<and>
             (x \<noteq> y \<longrightarrow> pos_addr st' x \<noteq> pos_addr st' y \<and>
                          vel_addrs st' x \<inter> vel_addrs st' y = {})"
    if x: "x \<in> set bs" and y: "y \<in> set bs" for x y
  proof (intro conjI impI)
    note s = valid_sepD[OF v x y]
    have px: "pos_addr st x < length (arrays st)" using validD(2)[OF v x] .
    show "pos_addr st' x \<notin> vel_addrs st' y" using vel[of "pos_addr st x" y] s(1) px pos by auto
    show "pos_addr st' x \<notin> hist_addrs st' y"
      using hist[of "pos_addr st x" y] s(2) px pos len by auto
    show "vel_addrs st' x \<inter> hist_addrs st' y = {}"
    proof (rule ccontr)
      assume "vel_addrs st' x \<inter> hist_addrs st' y \<noteq> {}"
      then obtain a where a: "a \<in> vel_addrs st' x" "a \<in> hist_addrs st' y" by blast
      have h: "a < length (arrays st) \<or> a = length (arrays st') - 1"
        using hist[OF a(2)] validD(4)[OF v y] by blast
      show False
      proof (cases "a \<in> vel_addrs st x")
        case True
        then have "a \<notin> hist_addrs st y" "a < length (arrays st)"
          using s(3) validD(3)[OF v x] by blast+
        then show False using hist[OF a(2)] len by linarith
      next
        case False
        then have "a = length (arrays st)"
          "length (arrays st') = Suc (Suc (length (arrays st)))"
          using vel[OF a(1)] by blast+
        then show False using h by linarith
      qed
    qed
    show "pos_addr st' x \<noteq> pos_addr st' y" if "x \<noteq> y" using s(4)[OF that] pos by simp
    show "vel_addrs st' x \<inter> vel_addrs st' y = {}" if "x \<noteq> y"
    proof (rule ccontr)
      assume "vel_addrs st' x \<inter> vel_addrs st' y \<noteq> {}"
      then obtain a where a: "a \<in> vel_addrs st' x" "a \<in> vel_addrs st' y" by blast
      show False
      proof (cases "a \<in> vel_addrs st x")
        case True
        then have "a \<notin> vel_addrs st y" "a < length (arrays st)"
          using s(5)[OF that] validD(3)[OF v x] by blast+
        then show False using vel[OF a(2)] by blast
      next
        case False
        then have ax: "a = length (arrays st)" "x = r" using vel[OF a(1)] by blast+
        then have "a \<notin> vel_addrs st y" using validD(3)[OF v y] by blast
        then have "y = r" using vel[OF a(2)] by blast
        then show False using ax that by simp
      qed
    qed
  qed
  have d: "distinct bs" using v by (simp add: valid_def)
  show ?thesis
    unfolding valid_def using d bounds rocket sep by blast
qed

lemma map_evict: "map f (evict h) = evict (map f h)"
  by (simp add: evict_def map_tl)

lemma velocity_step_frame:
  fixes aold anew :: vec2 and dt :: real
  assumes "r < length (objects st)" and "pos_addr st r < length (arrays st)"
    and "pos_addr st r \<notin> vel_addrs st r"
    and "\<forall>a \<in> vel_addrs st r. a < length (arrays st)"
  defines "st' \<equiv> append_history r (update_velocity aold anew dt r st)"
  shows "(\<forall>a < length (arrays st). a \<notin> vel_addrs st r \<longrightarrow> arrays st' ! a = arrays st ! a)
    \<and> arrays st' ! (length (arrays st') - 1) = arrays st ! pos_addr st r
    \<and> position_history (objects st' ! r) =
        evict (position_history (objects st ! r) @ [length (arrays st') - 1])
    \<and> v_velocity (view st' r) =
        vadd (v_velocity (view st r)) (smul dt (smul (1 / 2) (vadd aold anew)))"
proof (cases "velocity (objects st ! r)")
  case (VNum n)
  show ?thesis
    using assms(1-4) VNum unfolding st'_def step_VNum[OF VNum assms(1)]
    by (simp add: pos_addr_def vel_addrs_def view_simps nth_append)
next
  case (VArr va)
  show ?thesis
    using assms(1-4) VArr unfolding st'_def step_VArr[OF VArr assms(1)]
    by (auto simp add: pos_addr_def vel_addrs_def view_simps nth_append)
qed

lemma velocity_step_view:
  fixes a0 a1 :: vec2 and dt :: real
  assumes v: "valid st bs" and r: "r \<in> set bs" and r': "r' \<in> set bs"
  defines "st' \<equiv> append_history r (update_velocity a0 a1 dt r st)"
  shows "view st' r' = (if r' = r then kick a0 a1 dt (view st r) else view st r')"
proof -
  have rl: "r < length (objects st)" using validD(1)[OF v r] .
  note acc = velocity_step_accessors[OF rl, where aold = a0 and anew = a1 and dt = dt,
      folded st'_def]
  note fr = velocity_step_frame[OF rl validD(2)[OF v r] valid_sepD(1)[OF v r r]
      validD(3)[OF v r], where aold = a0 and anew = a1 and dt = dt, folded st'_def]
  have keep: "arrays st' ! a = arrays st ! a"
    if "a < length (arrays st)" "a \<notin> vel_addrs st r" for a
    using fr that by blast
  have pos: "v_position (view st' x) = v_position (view st x)" if "x \<in> set bs" for x
    using keep[OF validD(2)[OF v that] valid_sepD(1)[OF v that r]] acc[of x]
    by (simp add: view_simps pos_addr_def)
  have old_hist: "map (\<lambda>a. arrays st' ! a) (position_history (objects st ! x))
                = map (\<lambda>a. arrays st ! a) (position_history (objects st ! x))"
    if "x \<in> set bs" for x
  proof (rule map_cong[OF refl])
    fix a assume "a \<in> set (position_history (objects st ! x))"
    then have a: "a \<in> hist_addrs st x" by (simp add: hist_addrs_def)
    then have "a < length (arrays st)" "a \<notin> vel_addrs st r"
      using validD(4)[OF v that] valid_sepD(3)[OF v r that] by blast+
    then show "arrays st' ! a = arrays st ! a" by (rule keep)
  qed
  show ?thesis
  proof (cases "r' = r")
    case True
    have h: "trajectoryHistory (view st' r) =
               evict (trajectoryHistory (view st r) @ [v_position (view st r)])"
    proof -
      have "trajectoryHistory (view st' r) =
              map (\<lambda>a. arrays st' ! a)
                (evict (position_history (objects st ! r) @ [length (arrays st') - 1]))"
        using fr by (simp add: view_simps)
      also have "\<dots> = evict (map (\<lambda>a. arrays st' ! a) (position_history (objects st ! r))
                             @ [arrays st' ! (length (arrays st') - 1)])"
        by (simp add: map_evict)
      also have "\<dots> = evict (map (\<lambda>a. arrays st ! a) (position_history (objects st ! r))
                             @ [arrays st ! pos_addr st r])"
        unfolding old_hist[OF r] using fr by simp
      finally show ?thesis by (simp add: view_simps pos_addr_def)
    qed
    have "view st' r = kick a0 a1 dt (view st r)"
      by (rule body_view.equality)
         (use fr acc[of r] pos[OF r] h in \<open>simp_all add: kick_def\<close>,
          simp_all add: view_simps)
    then show ?thesis using True by simp
  next
    case False
    have o: "objects st' ! r' = objects st ! r'" using acc[of r'] False by blast
    have vel: "v_velocity (view st' r') = v_velocity (view st r')"
    proof (cases "velocity (objects st ! r')")
      case (VNum n)
      then show ?thesis by (simp add: view_simps o)
    next
      case (VArr va)
      then have "va \<in> vel_addrs st r'" by (simp add: vel_addrs_def)
      then have "va < length (arrays st)" "va \<notin> vel_addrs st r"
        using validD(3)[OF v r'] valid_sepD(5)[OF v r' r] False by blast+
      then show ?thesis using keep VArr by (simp add: view_simps o)
    qed
    have "view st' r' = view st r'"
      by (rule body_view.equality)
         (use pos[OF r'] vel old_hist[OF r'] in \<open>simp_all add: view_simps o\<close>)
    then show ?thesis using False by simp
  qed
qed

lemma velocity_step_live:
  fixes a0 a1 :: vec2 and dt :: real
  assumes v: "valid st bs" and r: "r \<in> set bs"
  defines "st' \<equiv> append_history r (update_velocity a0 a1 dt r st)"
  shows "length (arrays st) < length (arrays st')"
    and "live_addrs st' bs \<subseteq> live_addrs st bs \<union> {a. length (arrays st) \<le> a}"
    and "\<forall>a < length (arrays st). a \<notin> live_addrs st bs \<longrightarrow> arrays st' ! a = arrays st ! a"
proof -
  have rl: "r < length (objects st)" using validD(1)[OF v r] .
  note acc = velocity_step_accessors[OF rl, where aold = a0 and anew = a1 and dt = dt,
      folded st'_def]
  note fr = velocity_step_frame[OF rl validD(2)[OF v r] valid_sepD(1)[OF v r r]
      validD(3)[OF v r], where aold = a0 and anew = a1 and dt = dt, folded st'_def]
  show "length (arrays st) < length (arrays st')" using acc by blast
  show "live_addrs st' bs \<subseteq> live_addrs st bs \<union> {a. length (arrays st) \<le> a}"
  proof
    fix a assume "a \<in> live_addrs st' bs"
    then obtain x where x: "x \<in> set bs" "a = pos_addr st' x \<or> a \<in> vel_addrs st' x"
      by (auto simp: live_addrs_def)
    then have "a = pos_addr st x \<or> a \<in> vel_addrs st x \<or> a = length (arrays st)"
      using acc[of x] by auto
    then show "a \<in> live_addrs st bs \<union> {a. length (arrays st) \<le> a}"
      using x(1) by (auto simp: live_addrs_def)
  qed
  have "vel_addrs st r \<subseteq> live_addrs st bs" using r by (auto simp: live_addrs_def)
  then show "\<forall>a < length (arrays st). a \<notin> live_addrs st bs \<longrightarrow> arrays st' ! a = arrays st ! a"
    using fr by blast
qed

lemma velocity_loop_valid:
  assumes "valid st bs" and "snd ` set ps \<subseteq> set bs"
  shows "valid (velocity_loop a0 a1 dt ps st) bs"
  using assms
proof (induction ps arbitrary: st)
  case Nil
  then show ?case by simp
next
  case (Cons p ps)
  obtain i q where p: "p = (i, q)" by (cases p)
  have q: "q \<in> set bs" using Cons.prems(2) p by auto
  have "valid (append_history q (update_velocity (a0 ! i) (a1 ! i) dt q st)) bs"
    by (rule velocity_step_valid[OF Cons.prems(1) q])
  then show ?case using Cons.IH Cons.prems(2) p by simp
qed

lemma velocity_loop_frame:
  assumes "valid st bs" and "snd ` set ps \<subseteq> set bs"
  shows "length (arrays st) \<le> length (arrays (velocity_loop a0 a1 dt ps st))
    \<and> live_addrs (velocity_loop a0 a1 dt ps st) bs
         \<subseteq> live_addrs st bs \<union> {a. length (arrays st) \<le> a}
    \<and> (\<forall>a < length (arrays st). a \<notin> live_addrs st bs \<longrightarrow>
           arrays (velocity_loop a0 a1 dt ps st) ! a = arrays st ! a)"
  using assms
proof (induction ps arbitrary: st)
  case Nil
  then show ?case by simp
next
  case (Cons p ps)
  obtain i q where p: "p = (i, q)" by (cases p)
  let ?st = "append_history q (update_velocity (a0 ! i) (a1 ! i) dt q st)"
  let ?st' = "velocity_loop a0 a1 dt ps ?st"
  have q: "q \<in> set bs" using Cons.prems(2) p by auto
  have v: "valid ?st bs" by (rule velocity_step_valid[OF Cons.prems(1) q])
  note s = velocity_step_live[OF Cons.prems(1) q, of "a0 ! i" "a1 ! i" dt]
  have sub: "snd ` set ps \<subseteq> set bs" using Cons.prems(2) by auto
  note IH = Cons.IH[OF v sub]
  have loop: "velocity_loop a0 a1 dt (p # ps) st = ?st'" by (simp add: p)
  have 1: "length (arrays st) \<le> length (arrays ?st')" using IH s(1) by linarith
  have 2: "live_addrs ?st' bs \<subseteq> live_addrs st bs \<union> {a. length (arrays st) \<le> a}"
  proof
    fix a assume "a \<in> live_addrs ?st' bs"
    then have "a \<in> live_addrs ?st bs \<or> length (arrays ?st) \<le> a" using IH by blast
    then show "a \<in> live_addrs st bs \<union> {a. length (arrays st) \<le> a}"
      using s(1,2) by auto
  qed
  have 3: "arrays ?st' ! a = arrays st ! a"
    if "a < length (arrays st)" "a \<notin> live_addrs st bs" for a
  proof -
    have "arrays ?st ! a = arrays st ! a" using s(3) that by blast
    moreover have "a < length (arrays ?st)" using that(1) s(1) by linarith
    moreover have "a \<notin> live_addrs ?st bs" using s(2) that by auto
    ultimately show ?thesis using IH by auto
  qed
  show ?case unfolding loop using 1 2 3 by blast
qed

lemma velocity_loop_views:
  assumes "valid st bs" and "distinct (map snd ps)" and "snd ` set ps \<subseteq> set bs"
    and "r \<in> set bs"
  shows "view (velocity_loop a0 a1 dt ps st) r =
           (case map_of (map prod.swap ps) r of
              None \<Rightarrow> view st r
            | Some i \<Rightarrow> kick (a0 ! i) (a1 ! i) dt (view st r))"
  using assms
proof (induction ps arbitrary: st)
  case Nil
  then show ?case by simp
next
  case (Cons p ps)
  obtain i q where p: "p = (i, q)" by (cases p)
  let ?st = "append_history q (update_velocity (a0 ! i) (a1 ! i) dt q st)"
  have q: "q \<in> set bs" using Cons.prems(3) p by auto
  have v: "valid ?st bs" by (rule velocity_step_valid[OF Cons.prems(1) q])
  have d: "distinct (map snd ps)" "snd ` set ps \<subseteq> set bs" "q \<notin> snd ` set ps"
    using Cons.prems(2,3) p by auto
  note IH = Cons.IH[OF v d(1) d(2) Cons.prems(4)]
  have step: "view ?st r = (if r = q then kick (a0 ! i) (a1 ! i) dt (view st q) else view st r)"
    by (rule velocity_step_view[OF Cons.prems(1) q Cons.prems(4)])
  have loop: "velocity_loop a0 a1 dt (p # ps) st = velocity_loop a0 a1 dt ps ?st"
    by (simp add: p)
  have none: "map_of (map prod.swap ps) q = None"
    using d(3) by (simp add: map_of_eq_None_iff image_image)
  show ?case
  proof (cases "r = q")
    case True
    have "view (velocity_loop a0 a1 dt ps ?st) r = view ?st r"
      using IH none True by simp
    then show ?thesis using step True none unfolding loop by (simp add: p)
  next
    case False
    then show ?thesis unfolding loop IH step by (simp add: p)
  qed
qed

lemma velocity_pass_views:
  assumes "valid st bs"
  shows "map (view (velocity_loop a0 a1 dt (enumerate_list bs) st)) bs =
           map (\<lambda>i. kick (a0 ! i) (a1 ! i) dt (map (view st) bs ! i)) [0 ..< length bs]"
proof (rule nth_equalityI)
  show "length (map (view (velocity_loop a0 a1 dt (enumerate_list bs) st)) bs) =
        length (map (\<lambda>i. kick (a0 ! i) (a1 ! i) dt (map (view st) bs ! i)) [0 ..< length bs])"
    by simp
next
  fix i assume "i < length (map (view (velocity_loop a0 a1 dt (enumerate_list bs) st)) bs)"
  then have i: "i < length bs" by simp
  have d: "distinct bs" using assms by (simp add: valid_def)
  have "view (velocity_loop a0 a1 dt (enumerate_list bs) st) (bs ! i) =
          kick (a0 ! i) (a1 ! i) dt (view st (bs ! i))"
    using velocity_loop_views[OF assms, of "enumerate_list bs" "bs ! i" a0 a1 dt] d i
    by (simp add: enumerate_props enumerate_lookup)
  then show "map (view (velocity_loop a0 a1 dt (enumerate_list bs) st)) bs ! i =
        map (\<lambda>i. kick (a0 ! i) (a1 ! i) dt (map (view st) bs ! i)) [0 ..< length bs] ! i"
    using i by simp
qed

section \<open>One tick refines the specification\<close>

lemma integrate_refines:
  assumes v: "valid st bs" and b: "bodies sys = Some bs"
  shows "\<exists>st'. integrate st sys dt = Inr st'
          \<and> valid st' bs
          \<and> map (view st') bs = integrate_spec (G sys) dt (map (view st) bs)
          \<and> length (arrays st) \<le> length (arrays st')
          \<and> live_addrs st' bs \<subseteq> live_addrs st bs \<union> {a. length (arrays st) \<le> a}
          \<and> (\<forall>a < length (arrays st). a \<notin> live_addrs st bs \<longrightarrow>
                arrays st' ! a = arrays st ! a)"
proof -
  let ?n = "length bs"
  let ?vs = "map (view st) bs"
  define a0 where "a0 = map (computeAcceleration_spec (G sys) (18 / 100) ?vs) [0 ..< ?n]"
  define st1 where "st1 = position_loop a0 dt (enumerate_list bs) st"
  define a1 where
    "a1 = map (computeAcceleration_spec (G sys) (18 / 100) (map (view st1) bs)) [0 ..< ?n]"
  define st' where "st' = velocity_loop a0 a1 dt (enumerate_list bs) st1"
  have same: "objects st1 = objects st" "length (arrays st1) = length (arrays st)"
    unfolding st1_def using position_loop_preserves by blast+
  have v1: "valid st1 bs" using v valid_same[OF same] by simp
  have c0: "compute_accelerations st sys = Inr a0"
    unfolding a0_def by (rule compute_accelerations_view[OF v b])
  have c1: "compute_accelerations st1 sys = Inr a1"
    unfolding a1_def by (rule compute_accelerations_view[OF v1 b])
  have run: "integrate st sys dt = Inr st'"
    by (simp add: integrate_def c0 b c1 st'_def flip: st1_def)
  have vs1: "map (view st1) bs = map (\<lambda>i. drift (a0 ! i) dt (?vs ! i)) [0 ..< ?n]"
    unfolding st1_def by (rule position_pass_views[OF v])
  have vs2: "map (view st') bs =
               map (\<lambda>i. kick (a0 ! i) (a1 ! i) dt (map (view st1) bs ! i)) [0 ..< ?n]"
    unfolding st'_def by (rule velocity_pass_views[OF v1])
  have spec: "map (view st') bs = integrate_spec (G sys) dt ?vs"
    unfolding vs2 integrate_spec_def Let_def
    by (simp add: vs1 a0_def a1_def)
  have sub: "snd ` set (enumerate_list bs) \<subseteq> set bs" by (simp add: enumerate_props)
  have v': "valid st' bs" unfolding st'_def by (rule velocity_loop_valid[OF v1 sub])
  note fr = velocity_loop_frame[OF v1 sub, of a0 a1 dt, folded st'_def]
  have live1: "live_addrs st1 bs = live_addrs st bs"
    by (simp add: live_addrs_def pos_addr_def vel_addrs_def same)
  have keep1: "arrays st1 ! a = arrays st ! a" if "a \<notin> live_addrs st bs" for a
    unfolding st1_def by (rule position_loop_frame[OF sub that])
  have "length (arrays st) \<le> length (arrays st')" using fr same by simp
  moreover have "live_addrs st' bs \<subseteq> live_addrs st bs \<union> {a. length (arrays st) \<le> a}"
    using fr live1 same by simp
  moreover have "\<forall>a < length (arrays st). a \<notin> live_addrs st bs \<longrightarrow>
                   arrays st' ! a = arrays st ! a"
    using fr live1 same keep1 by simp
  ultimately show ?thesis using run v' spec by blast
qed

text \<open>
  C1. On a well-formed store \<open>integrate\<close> returns, and what it leaves of every body is
  what steps 1 to 5 of the specification compute: \<open>a0\<close> from the state before the tick,
  every position moved by \<open>velocity * dt + a0 * dt\<^sup>2 / 2\<close>, \<open>a1\<close> from the state in which
  all positions have been moved, and every velocity moved by \<open>(a0 + a1) * dt / 2\<close> with
  the \<open>a0\<close> and \<open>a1\<close> of this tick.
\<close>

theorem integrate_is_velocity_verlet:
  assumes "valid st bs" and "bodies sys = Some bs"
  shows "\<exists>st'. integrate st sys dt = Inr st'
           \<and> map (view st') bs = integrate_spec (G sys) dt (map (view st) bs)"
  using integrate_refines[OF assms, of dt] by blast

theorem integrate_is_velocity_verlet_witness:
  "\<exists>st'. integrate (snd generate) (fst generate) (1 / 1000) = Inr st'
           \<and> map (view st') [0, 1, 2, 3] =
               integrate_spec 1 (1 / 1000) (map (view (snd generate)) [0, 1, 2, 3])"
  using integrate_is_velocity_verlet[of "snd generate" "[0, 1, 2, 3]" "fst generate" "1 / 1000"]
    valid_generate
  by (simp add: generate_system)

section \<open>Gravity on a passive body\<close>

lemma accelerations_loop_Inr:
  assumes "accelerations_loop st g all_bodies rest acc = Inr accs"
  shows "length accs = length acc + length rest
       \<and> (\<forall>i < length rest.
            compute_acceleration st (rest ! i) (filter (\<lambda>x. x \<noteq> rest ! i) all_bodies) g
              default_softening = Inr (accs ! (length acc + i)))
       \<and> take (length acc) accs = acc"
  using assms
proof (induction rest arbitrary: acc)
  case Nil
  then show ?case by simp
next
  case (Cons b rest)
  obtain a where a: "compute_acceleration st b (filter (\<lambda>x. x \<noteq> b) all_bodies) g
                       default_softening = Inr a"
    using Cons.prems by (auto split: sum.splits)
  then have loop: "accelerations_loop st g all_bodies rest (acc @ [a]) = Inr accs"
    using Cons.prems by simp
  note IH = Cons.IH[OF loop]
  have t: "take (length acc) accs = acc" and t1: "accs ! length acc = a"
  proof -
    have "take (Suc (length acc)) accs = acc @ [a]" using IH by simp
    then show "take (length acc) accs = acc"
      by (metis butlast_snoc butlast_take diff_Suc_1 length_append_singleton
          length_take min.absorb2 nat_le_linear take_all)
    show "accs ! length acc = a"
      by (metis \<open>take (Suc (length acc)) accs = acc @ [a]\<close> lessI nth_append_length nth_take)
  qed
  have "compute_acceleration st ((b # rest) ! i) (filter (\<lambda>x. x \<noteq> (b # rest) ! i) all_bodies) g
          default_softening = Inr (accs ! (length acc + i))" if "i < length (b # rest)" for i
  proof (cases i)
    case 0
    then show ?thesis using a t1 by simp
  next
    case (Suc j)
    then show ?thesis using IH that by simp
  qed
  then show ?case using IH t by simp
qed

text \<open>
  C2. For a passive body \<open>compute_acceleration\<close> returns the sum, over the entries of
  \<open>other_bodies\<close> that are not the body's own reference, of
  \<open>G * mass * r / max (|r| ^ 3) (softening ^ 3)\<close>; with no other body this is the zero
  vector; \<open>compute_accelerations\<close> uses the default softening 0.18.
\<close>

theorem passive_acceleration_is_softened_gravity:
  assumes "\<not> is_rocket (objects st ! self)"
  shows "compute_acceleration st self other_bodies g softening =
           Inr (vsum (map (\<lambda>other. gravity_term g softening
                                     (arrays st ! position (objects st ! self))
                                     (mass (objects st ! other))
                                     (arrays st ! position (objects st ! other)))
                          (filter (\<lambda>other. other \<noteq> self) other_bodies)))
       \<and> compute_acceleration st self [] g softening = Inr (0, 0)
       \<and> default_softening = 18 / 100
       \<and> (bodies sys = Some bs \<longrightarrow> compute_accelerations st sys = Inr accs \<longrightarrow>
            (\<forall>i < length bs. bs ! i = self \<longrightarrow>
               accs ! i =
                 vsum (map (\<lambda>other. gravity_term (G sys) (18 / 100)
                                       (arrays st ! position (objects st ! self))
                                       (mass (objects st ! other))
                                       (arrays st ! position (objects st ! other)))
                           (filter (\<lambda>other. other \<noteq> self) bs))))"
proof -
  have code: "compute_acceleration st self others g' s' =
           Inr (vsum (map (\<lambda>other. gravity_term g' s'
                                     (arrays st ! position (objects st ! self))
                                     (mass (objects st ! other))
                                     (arrays st ! position (objects st ! other)))
                          (filter (\<lambda>other. other \<noteq> self) others)))" for others g' s'
    using assms by (simp add: compute_acceleration_def gravity_loop_vsum)
  have "accs ! i = vsum (map (\<lambda>other. gravity_term (G sys) (18 / 100)
                                       (arrays st ! position (objects st ! self))
                                       (mass (objects st ! other))
                                       (arrays st ! position (objects st ! other)))
                           (filter (\<lambda>other. other \<noteq> self) bs))"
    if "bodies sys = Some bs" "compute_accelerations st sys = Inr accs" "i < length bs"
      "bs ! i = self" for i
  proof -
    have "accelerations_loop st (G sys) bs bs [] = Inr accs"
      using that(1,2) by (simp add: compute_accelerations_def)
    from accelerations_loop_Inr[OF this] that(3,4)
    have "compute_acceleration st self (filter (\<lambda>x. x \<noteq> self) bs) (G sys) default_softening
            = Inr (accs ! i)" by auto
    then show ?thesis unfolding code by (simp add: default_softening_def)
  qed
  then show ?thesis using code[of other_bodies g softening] code[of "[]" g softening]
    by (simp add: default_softening_def zeros2_def)
qed

theorem passive_acceleration_is_softened_gravity_witness:
  "compute_acceleration (snd generate) 0 [0, 1, 2] 1 (18 / 100) = Inr (0, 0)"
  using passive_acceleration_is_softened_gravity[of "snd generate" 0 "[0, 1, 2]" 1 "18 / 100"]
  by (simp add: generate_store gravity_term_def linalg_norm_def zeros2_def)

section \<open>Construction and the flat state vector\<close>

lemma Body_init_eq:
  "Body_init m p v k st =
     (length (objects st),
      \<lparr>arrays = arrays st @ [p, v],
       objects = objects st @
         [\<lparr>mass = m, position = length (arrays st), velocity = VArr (Suc (length (arrays st))),
           is_rocket = k, thrust = (if k then 1 / 10000 else 0),
           angle = (if k then Some 0 else None), position_history = []\<rparr>]\<rparr>)"
  by (simp add: Body_init_def Let_def)

lemma Body_init_valid:
  assumes v: "valid st bs"
  shows "valid (snd (Body_init m p v' k st)) (bs @ [fst (Body_init m p v' k st)])"
proof -
  let ?st = "snd (Body_init m p v' k st)"
  let ?r = "length (objects st)"
  have old: "objects ?st ! x = objects st ! x" if "x \<in> set bs" for x
    using validD(1)[OF v that] by (simp add: Body_init_eq nth_append)
  have new: "objects ?st ! ?r =
         \<lparr>mass = m, position = length (arrays st), velocity = VArr (Suc (length (arrays st))),
           is_rocket = k, thrust = (if k then 1 / 10000 else 0),
           angle = (if k then Some 0 else None), position_history = []\<rparr>"
    by (simp add: Body_init_eq)
  have len: "length (arrays ?st) = Suc (Suc (length (arrays st)))"
    "length (objects ?st) = Suc (length (objects st))"
    by (simp_all add: Body_init_eq)
  have new_rocket: "is_rocket (objects ?st ! ?r) \<longrightarrow> angle (objects ?st ! ?r) \<noteq> None"
    by (simp add: Body_init_eq)
  have fresh: "?r \<notin> set bs" using validD(1)[OF v] by auto
  have acc_old: "pos_addr ?st x = pos_addr st x" "vel_addrs ?st x = vel_addrs st x"
    "hist_addrs ?st x = hist_addrs st x" if "x \<in> set bs" for x
    using old[OF that] by (simp_all add: pos_addr_def vel_addrs_def hist_addrs_def)
  have acc_new: "pos_addr ?st ?r = length (arrays st)"
    "vel_addrs ?st ?r = {Suc (length (arrays st))}" "hist_addrs ?st ?r = {}"
    using new by (simp_all add: pos_addr_def vel_addrs_def hist_addrs_def)
  have d: "distinct (bs @ [?r])" using v fresh by (simp add: valid_def)
  have bounds: "x < length (objects ?st) \<and> pos_addr ?st x < length (arrays ?st) \<and>
                (\<forall>a \<in> vel_addrs ?st x. a < length (arrays ?st)) \<and>
                (\<forall>a \<in> hist_addrs ?st x. a < length (arrays ?st)) \<and>
                (is_rocket (objects ?st ! x) \<longrightarrow> angle (objects ?st ! x) \<noteq> None)"
    if "x \<in> set (bs @ [?r])" for x
  proof (cases "x = ?r")
    case True
    show ?thesis unfolding True using acc_new new_rocket len by simp
  next
    case False
    then have x: "x \<in> set bs" using that by simp
    show ?thesis
      using validD[OF v x] acc_old[OF x] old[OF x] len by auto
  qed
  have sep: "pos_addr ?st x \<notin> vel_addrs ?st y \<and> pos_addr ?st x \<notin> hist_addrs ?st y \<and>
             vel_addrs ?st x \<inter> hist_addrs ?st y = {} \<and>
             (x \<noteq> y \<longrightarrow> pos_addr ?st x \<noteq> pos_addr ?st y \<and>
                          vel_addrs ?st x \<inter> vel_addrs ?st y = {})"
    if xy: "x \<in> set (bs @ [?r])" "y \<in> set (bs @ [?r])" for x y
  proof -
    consider "x = ?r" "y = ?r" | "x = ?r" "y \<in> set bs" | "x \<in> set bs" "y = ?r"
      | "x \<in> set bs" "y \<in> set bs"
      using xy by auto
    then show ?thesis
    proof cases
      case 1
      then show ?thesis using acc_new by simp
    next
      case 2
      then show ?thesis
        using acc_new acc_old[OF 2(2)] validD(2,3,4)[OF v 2(2)] by auto
    next
      case 3
      then show ?thesis
        using acc_new acc_old[OF 3(1)] validD(2,3,4)[OF v 3(1)] by auto
    next
      case 4
      then show ?thesis
        using acc_old[OF 4(1)] acc_old[OF 4(2)] valid_sepD[OF v 4] by auto
    qed
  qed
  have "valid ?st (bs @ [?r])"
    unfolding valid_def using d bounds sep by blast
  then show ?thesis by (simp add: Body_init_eq)
qed

lemma Body_get_state_new:
  "Body_get_state (snd (Body_init m p v k st)) (fst (Body_init m p v k st)) =
     Inr [fst p, snd p, fst v, snd v]"
  by (simp add: Body_init_eq Body_get_state_def nth_append)

lemma Body_get_state_old:
  assumes "valid st bs" and "x \<in> set bs"
  shows "Body_get_state (snd (Body_init m p v k st)) x = Body_get_state st x"
proof -
  have "x < length (objects st)" "position (objects st ! x) < length (arrays st)"
    using validD(1,2)[OF assms] by (simp_all add: pos_addr_def)
  moreover have "va < length (arrays st)" if "velocity (objects st ! x) = VArr va" for va
    using validD(3)[OF assms] that by (simp add: vel_addrs_def)
  ultimately show ?thesis
    by (auto simp: Body_init_eq Body_get_state_def nth_append Let_def
             split: velocity_value.splits)
qed

lemma init_loop_props:
  assumes "valid st bs"
  shows "valid (snd (init_loop state ks bs st)) (fst (init_loop state ks bs st))
       \<and> map (Body_get_state (snd (init_loop state ks bs st))) (fst (init_loop state ks bs st))
           = map (Body_get_state st) bs @ map (\<lambda>b. Inr (chunk state b)) ks"
  using assms
proof (induction ks arbitrary: bs st)
  case Nil
  then show ?case by simp
next
  case (Cons b ks)
  let ?init = "Body_init 1 (state ! (0 + b * 4), state ! (1 + b * 4))
                           (state ! (2 + b * 4), state ! (3 + b * 4)) False st"
  have loop: "init_loop state (b # ks) bs st = init_loop state ks (bs @ [fst ?init]) (snd ?init)"
    by (simp add: Let_def case_prod_unfold)
  have v: "valid (snd ?init) (bs @ [fst ?init])" by (rule Body_init_valid[OF Cons.prems])
  have "map (Body_get_state (snd ?init)) bs = map (Body_get_state st) bs"
    using Body_get_state_old[OF Cons.prems] by simp
  then have gs: "map (Body_get_state (snd ?init)) (bs @ [fst ?init])
                 = map (Body_get_state st) bs @ [Inr (chunk state b)]"
    by (simp add: Body_get_state_new chunk_def)
  show ?case unfolding loop using Cons.IH[OF v] gs by simp
qed

lemma get_state_loop_Inr:
  assumes "map (Body_get_state st) bs = map Inr cs"
  shows "get_state_loop st bs acc = Inr (acc @ concat cs)"
  using assms
proof (induction bs arbitrary: cs acc)
  case Nil
  then show ?case by simp
next
  case (Cons b bs)
  then obtain c cs' where cs: "cs = c # cs'" "Body_get_state st b = Inr c"
    "map (Body_get_state st) bs = map Inr cs'"
    by (cases cs) auto
  show ?case using Cons.IH[OF cs(3)] cs by simp
qed

lemma concat_chunks:
  assumes "4 * n \<le> length state"
  shows "concat (map (chunk state) [0 ..< n]) = take (4 * n) state"
  using assms
proof (induction n)
  case 0
  then show ?case by simp
next
  case (Suc n)
  have e: "4 * Suc n = Suc (Suc (Suc (Suc (4 * n))))" by simp
  have "take (4 * Suc n) state =
          take (4 * n) state @ [state ! (4 * n), state ! Suc (4 * n), state ! Suc (Suc (4 * n)),
                                state ! Suc (Suc (Suc (4 * n)))]"
    unfolding e using Suc.prems by (simp add: take_Suc_conv_app_nth)
  moreover have "chunk state n = [state ! (4 * n), state ! Suc (4 * n), state ! Suc (Suc (4 * n)),
                                state ! Suc (Suc (Suc (4 * n)))]"
    by (simp add: chunk_def mult.commute numeral_3_eq_3 numeral_2_eq_2)
  ultimately show ?case using Suc by simp
qed

lemma valid_Nil: "valid st []"
  by (simp add: valid_def)

lemma System_init_state:
  "fst (System_init g (Some state) bs st) =
     \<lparr>G = g, bodies = Some (fst (init_loop state [0 ..< length state div 4] [] st))\<rparr>"
  "snd (System_init g (Some state) bs st) =
     snd (init_loop state [0 ..< length state div 4] [] st)"
  by (simp_all add: System_init_def case_prod_unfold Let_def)

lemma System_init_get_state:
  "get_state (snd (System_init g (Some state) bs st)) (fst (System_init g (Some state) bs st)) =
     Inr (take (4 * (length state div 4)) state)"
proof -
  let ?n = "length state div 4"
  let ?loop = "init_loop state [0 ..< ?n] [] st"
  note sys = System_init_state
  have "map (Body_get_state (snd ?loop)) (fst ?loop) = map Inr (map (chunk state) [0 ..< ?n])"
    using init_loop_props[OF valid_Nil, where st = st and state = state and ks = "[0 ..< ?n]"]
    by simp
  then have "get_state_loop (snd ?loop) (fst ?loop) [] =
               Inr ([] @ concat (map (chunk state) [0 ..< ?n]))"
    by (rule get_state_loop_Inr)
  moreover have "4 * ?n \<le> length state" by simp
  ultimately show ?thesis
    by (simp add: sys get_state_def concat_chunks)
qed

lemma init_loop_unit_masses:
  assumes "\<forall>x \<in> set bs. x < length (objects st) \<and> mass (objects st ! x) = 1
                          \<and> \<not> is_rocket (objects st ! x)"
  shows "length (fst (init_loop state ks bs st)) = length bs + length ks
       \<and> (\<forall>x \<in> set (fst (init_loop state ks bs st)).
             x < length (objects (snd (init_loop state ks bs st)))
             \<and> mass (objects (snd (init_loop state ks bs st)) ! x) = 1
             \<and> \<not> is_rocket (objects (snd (init_loop state ks bs st)) ! x))"
  using assms
proof (induction ks arbitrary: bs st)
  case Nil
  then show ?case by simp
next
  case (Cons b ks)
  let ?init = "Body_init 1 (state ! (0 + b * 4), state ! (1 + b * 4))
                           (state ! (2 + b * 4), state ! (3 + b * 4)) False st"
  have loop: "init_loop state (b # ks) bs st = init_loop state ks (bs @ [fst ?init]) (snd ?init)"
    by (simp add: Let_def case_prod_unfold)
  have "\<forall>x \<in> set (bs @ [fst ?init]). x < length (objects (snd ?init))
            \<and> mass (objects (snd ?init) ! x) = 1 \<and> \<not> is_rocket (objects (snd ?init) ! x)"
    using Cons.prems by (auto simp: Body_init_eq nth_append)
  from Cons.IH[OF this] show ?case unfolding loop by simp
qed

text \<open>
  C5. A system constructed from a flat state vector whose length is a multiple of 4 has one
  passive unit-mass body per quadruple, and \<open>get_state\<close>, called before any tick, returns
  the vector it was constructed from.
\<close>

theorem state_round_trip:
  assumes "length state mod 4 = 0"
  shows "get_state (snd (System_init g (Some state) bs st))
                   (fst (System_init g (Some state) bs st)) = Inr state
       \<and> (\<exists>refs. bodies (fst (System_init g (Some state) bs st)) = Some refs
            \<and> length refs = length state div 4
            \<and> (\<forall>r \<in> set refs.
                  mass (objects (snd (System_init g (Some state) bs st)) ! r) = 1
                  \<and> \<not> is_rocket (objects (snd (System_init g (Some state) bs st)) ! r)))"
proof -
  have "4 * (length state div 4) = length state" using assms by presburger
  then have "get_state (snd (System_init g (Some state) bs st))
                   (fst (System_init g (Some state) bs st)) = Inr state"
    by (simp add: System_init_get_state)
  moreover have "\<exists>refs. bodies (fst (System_init g (Some state) bs st)) = Some refs
            \<and> length refs = length state div 4
            \<and> (\<forall>r \<in> set refs.
                  mass (objects (snd (System_init g (Some state) bs st)) ! r) = 1
                  \<and> \<not> is_rocket (objects (snd (System_init g (Some state) bs st)) ! r))"
    using init_loop_unit_masses[where bs = "[]" and st = st and state = state
        and ks = "[0 ..< length state div 4]"]
    by (simp add: System_init_state)
  ultimately show ?thesis by blast
qed

theorem state_round_trip_witness:
  "get_state (snd (System_init 1 (Some [0, 0, 1, 0, 2, 0, 0, 1]) None empty_store))
             (fst (System_init 1 (Some [0, 0, 1, 0, 2, 0, 0, 1]) None empty_store))
     = Inr [0, 0, 1, 0, 2, 0, 0, 1]"
  using state_round_trip[of "[0, 0, 1, 0, 2, 0, 0, 1]" 1 None empty_store] by simp

text \<open>
  C7. Construction does not validate. A state vector of length 5 gives a one-body system
  whose state is the first four numbers, a body of mass \<open>-1\<close> is constructed as asked, and
  \<open>integrate\<close> on a system with an empty body list returns the store as it was.
\<close>

theorem construction_misuse_counterexample:
  "get_state (snd (System_init 1 (Some [0, 0, 1, 0, 2]) None empty_store))
             (fst (System_init 1 (Some [0, 0, 1, 0, 2]) None empty_store)) = Inr [0, 0, 1, 0]
   \<and> mass (objects (snd (Body_init (- 1) (0, 0) (0, 0) False empty_store))
             ! fst (Body_init (- 1) (0, 0) (0, 0) False empty_store)) = - 1
   \<and> integrate empty_store \<lparr>G = 1, bodies = Some []\<rparr> (1 / 1000) = Inr empty_store"
  by (simp add: System_init_get_state Body_init_eq empty_store_def integrate_def
        compute_accelerations_def enumerate_list_def)

text \<open>
  C7, as the code has it. A state vector of any length is cut to its first
  \<open>4 * (length div 4)\<close> numbers, \<open>Body\<close> keeps whatever mass it is given, \<open>integrate\<close> on
  an empty body list changes nothing and returns, and on a system constructed with neither
  a state nor bodies it raises Python's \<open>TypeError\<close>.
\<close>

theorem construction_is_not_validated:
  "get_state (snd (System_init g (Some state) bs st)) (fst (System_init g (Some state) bs st))
     = Inr (take (4 * (length state div 4)) state)
   \<and> mass (objects (snd (Body_init m p v k st)) ! fst (Body_init m p v k st)) = m
   \<and> integrate st \<lparr>G = g, bodies = Some []\<rparr> dt = Inr st
   \<and> integrate st \<lparr>G = g, bodies = None\<rparr> dt = Inl TypeError"
  by (simp add: System_init_get_state Body_init_eq integrate_def
        compute_accelerations_def enumerate_list_def)

section \<open>The two-body scenario\<close>

lemma scenario_store:
  "snd (scenario m) =
     \<lparr>arrays = [(0, 12 / 10), (0, 0), (0, 0), (0, 0)],
      objects = [\<lparr>mass = m, position = 0, velocity = VArr 1, is_rocket = True, thrust = 0,
                   angle = Some 0, position_history = []\<rparr>,
                 \<lparr>mass = 1, position = 2, velocity = VArr 3, is_rocket = False, thrust = 0,
                   angle = None, position_history = []\<rparr>]\<rparr>"
  "fst (scenario m) = \<lparr>G = 1, bodies = Some [0, 1]\<rparr>"
  by (simp_all add: scenario_def Body_init_eq System_init_def empty_store_def
        update_rocket_controls_def no_keys_def default_G_def)

lemma valid_scenario: "valid (snd (scenario m)) [0, 1]"
  by (simp add: scenario_store valid_def pos_addr_def vel_addrs_def hist_addrs_def)

lemma integrate_spec_position:
  assumes "i < length vs"
  shows "v_position (integrate_spec g dt vs ! i) =
           vadd (v_position (vs ! i))
                (vadd (smul dt (v_velocity (vs ! i)))
                      (smul (dt\<^sup>2) (smul (1 / 2) (computeAcceleration_spec g (18 / 100) vs i))))"
  using assms by (simp add: integrate_spec_def Let_def kick_def drift_def)

lemma integrate_spec_history:
  assumes "i < length vs"
  shows "trajectoryHistory (integrate_spec g dt vs ! i) =
           evict (trajectoryHistory (vs ! i) @ [v_position (integrate_spec g dt vs ! i)])"
  using assms by (simp add: integrate_spec_def Let_def kick_def drift_def)

lemma norm_up: "linalg_norm (0, 6 / 5) = 6 / 5"
proof -
  have "sqrt ((6 / 5)\<^sup>2) = \<bar>6 / (5 :: real)\<bar>" by (rule real_sqrt_abs)
  then show ?thesis by (simp add: linalg_norm_def)
qed

lemma scenario_tick:
  "\<exists>st'. integrate (snd (scenario m)) (fst (scenario m)) (1 / 1000) = Inr st'
        \<and> v_position (view st' 0) = (0, 12 / 10)
        \<and> v_position (view st' 1) = (0, m / 2880000)"
proof -
  let ?vs = "map (view (snd (scenario m))) [0, 1]"
  obtain st' where st': "integrate (snd (scenario m)) (fst (scenario m)) (1 / 1000) = Inr st'"
    "map (view st') [0, 1] = integrate_spec (G (fst (scenario m))) (1 / 1000) ?vs"
    using integrate_refines[OF valid_scenario, of "fst (scenario m)" m "1 / 1000"]
    by (auto simp: scenario_store(2))
  have v0: "view st' 0 = integrate_spec 1 (1 / 1000) ?vs ! 0"
    using arg_cong[OF st'(2), of "\<lambda>xs. xs ! 0"] by (simp add: scenario_store(2))
  have v1: "view st' 1 = integrate_spec 1 (1 / 1000) ?vs ! 1"
    using arg_cong[OF st'(2), of "\<lambda>xs. xs ! 1"] by (simp add: scenario_store(2))
  have a0: "computeAcceleration_spec 1 (18 / 100) ?vs 0 = (0, 0)"
    by (simp add: computeAcceleration_spec_def view_simps scenario_store thrust_vector_def)
  have js: "filter (\<lambda>j. j \<noteq> 1) [0 ..< 2] = [0 :: nat]"
    by (simp add: upt_rec)
  have a1: "computeAcceleration_spec 1 (18 / 100) ?vs 1 = (0, m * (12 / 10) / (12 / 10) ^ 3)"
    by (simp add: computeAcceleration_spec_def view_simps scenario_store js gravity_term_def
          norm_up zeros2_def)
  have "v_position (view st' 0) =
          vadd (v_position (?vs ! 0))
               (vadd (smul (1 / 1000) (v_velocity (?vs ! 0)))
                     (smul ((1 / 1000)\<^sup>2)
                        (smul (1 / 2) (computeAcceleration_spec 1 (18 / 100) ?vs 0))))"
    unfolding v0 by (rule integrate_spec_position) simp
  then have p0: "v_position (view st' 0) = (0, 12 / 10)"
    unfolding a0 by (simp add: view_simps scenario_store)
  have "v_position (view st' 1) =
          vadd (v_position (?vs ! 1))
               (vadd (smul (1 / 1000) (v_velocity (?vs ! 1)))
                     (smul ((1 / 1000)\<^sup>2)
                        (smul (1 / 2) (computeAcceleration_spec 1 (18 / 100) ?vs 1))))"
    unfolding v1 by (rule integrate_spec_position) simp
  then have p1: "v_position (view st' 1) = (0, m / 2880000)"
    unfolding a1 by (simp add: view_simps scenario_store power2_eq_square power3_eq_cube)
  show ?thesis using st'(1) p0 p1 by blast
qed

text \<open>
  C8. With the rocket's mass 0.0001 of \<open>generate()\<close>, the passive body of the two-body
  scenario is not at the origin after one tick: it is attracted by the rocket.
\<close>

theorem scenario_planet_moves_counterexample:
  "v_position (view (projr (integrate (snd (scenario (1 / 10000))) (fst (scenario (1 / 10000)))
                                      (1 / 1000))) 1) \<noteq> (0, 0)"
proof -
  obtain st' where "integrate (snd (scenario (1 / 10000))) (fst (scenario (1 / 10000)))
                      (1 / 1000) = Inr st'"
    and "v_position (view st' 1) = (0, (1 / 10000) / 2880000)"
    using scenario_tick[of "1 / 10000"] by blast
  then show ?thesis by simp
qed

text \<open>
  C8, as the code has it. After one tick of 0.001 with no thrust the controllable body is
  where it was, at \<open>[0, 1.2]\<close>, and the passive body, which started at the origin, is at
  \<open>[0, m / 2880000]\<close> for a controllable body of mass \<open>m\<close>: at the origin exactly when
  \<open>m = 0\<close>.
\<close>

theorem scenario_one_tick:
  "\<exists>st'. integrate (snd (scenario m)) (fst (scenario m)) (1 / 1000) = Inr st'
        \<and> v_position (view st' 0) = v_position (view (snd (scenario m)) 0)
        \<and> v_position (view st' 0) = (0, 12 / 10)
        \<and> v_position (view (snd (scenario m)) 1) = (0, 0)
        \<and> v_position (view st' 1) = (0, m / 2880000)
        \<and> (v_position (view st' 1) = (0, 0) \<longleftrightarrow> m = 0)"
proof -
  obtain st' where "integrate (snd (scenario m)) (fst (scenario m)) (1 / 1000) = Inr st'"
    and "v_position (view st' 0) = (0, 12 / 10)"
    and "v_position (view st' 1) = (0, m / 2880000)"
    using scenario_tick[of m] by blast
  then show ?thesis by (auto simp: view_simps scenario_store)
qed

section \<open>The kill key\<close>

lemma kill_key_effect:
  assumes "is_rocket (objects st ! r)"
  shows "update_rocket_controls kill_key r st =
           Inr (st\<lparr>objects := (objects st)[r := (objects st ! r)\<lparr>thrust := 0, velocity := VNum 0\<rparr>]\<rparr>)"
  using assms by (simp add: update_rocket_controls_def kill_key_def)

text \<open>
  C9. The kill key assigns the number 0, not an array, to the rocket's velocity: until the
  next \<open>integrate\<close> rebinds the attribute, \<open>Body.get_state\<close> and \<open>System.get_state\<close>
  raise on it.
\<close>

theorem kill_key_leaves_a_number:
  "velocity (objects (projr (update_rocket_controls kill_key 3 (snd generate))) ! 3) = VNum 0
   \<and> Body_get_state (projr (update_rocket_controls kill_key 3 (snd generate))) 3 = Inl TypeError
   \<and> get_state (projr (update_rocket_controls kill_key 3 (snd generate))) (fst generate)
       = Inl TypeError"
  by (simp add: kill_key_effect generate_store generate_system Body_get_state_def get_state_def)

section \<open>Repeated ticks and the trajectory history\<close>

lemma ticks_refines:
  assumes "valid st bs" and "bodies sys = Some bs"
  shows "\<exists>st'. ticks st sys dts = Inr st'
          \<and> valid st' bs
          \<and> length (arrays st) \<le> length (arrays st')
          \<and> (\<forall>a < length (arrays st). a \<notin> live_addrs st bs \<longrightarrow>
                arrays st' ! a = arrays st ! a \<and> a \<notin> live_addrs st' bs)"
  using assms(1)
proof (induction dts arbitrary: st)
  case Nil
  then show ?case by simp
next
  case (Cons dt dts)
  obtain st1 where st1: "integrate st sys dt = Inr st1" "valid st1 bs"
    "length (arrays st) \<le> length (arrays st1)"
    "live_addrs st1 bs \<subseteq> live_addrs st bs \<union> {a. length (arrays st) \<le> a}"
    "\<forall>a < length (arrays st). a \<notin> live_addrs st bs \<longrightarrow> arrays st1 ! a = arrays st ! a"
    using integrate_refines[OF Cons.prems assms(2), of dt] by blast
  obtain st' where st': "ticks st1 sys dts = Inr st'" "valid st' bs"
    "length (arrays st1) \<le> length (arrays st')"
    "\<forall>a < length (arrays st1). a \<notin> live_addrs st1 bs \<longrightarrow>
        arrays st' ! a = arrays st1 ! a \<and> a \<notin> live_addrs st' bs"
    using Cons.IH[OF st1(2)] by blast
  have "arrays st' ! a = arrays st ! a \<and> a \<notin> live_addrs st' bs"
    if a: "a < length (arrays st)" "a \<notin> live_addrs st bs" for a
  proof -
    have "a < length (arrays st1)" using a(1) st1(3) by linarith
    moreover have "a \<notin> live_addrs st1 bs" using st1(4) a by auto
    ultimately show ?thesis using st'(4) st1(5) a by auto
  qed
  moreover have "ticks st sys (dt # dts) = Inr st'" using st1(1) st'(1) by simp
  moreover have "length (arrays st) \<le> length (arrays st')" using st1(3) st'(3) by linarith
  ultimately show ?case using st'(2) by blast
qed

lemma ticks_snoc:
  "ticks st sys (dts @ [dt]) =
     (case ticks st sys dts of Inl e \<Rightarrow> Inl e | Inr st' \<Rightarrow> integrate st' sys dt)"
  by (induction dts arbitrary: st) (auto split: sum.splits)

lemma integrate_history:
  assumes v: "valid st bs" and b: "bodies sys = Some bs" and r: "r \<in> set bs"
    and run: "integrate st sys dt = Inr st'"
  shows "trajectoryHistory (view st' r) =
           evict (trajectoryHistory (view st r) @ [v_position (view st' r)])"
proof -
  obtain i where i: "i < length bs" "bs ! i = r" using r by (auto simp: in_set_conv_nth)
  have eq: "map (view st') bs = integrate_spec (G sys) dt (map (view st) bs)"
    using integrate_refines[OF v b, of dt] run by auto
  have "view st' r = integrate_spec (G sys) dt (map (view st) bs) ! i"
    using arg_cong[OF eq, of "\<lambda>xs. xs ! i"] i by simp
  moreover have "map (view st) bs ! i = view st r" using i by simp
  ultimately show ?thesis
    using integrate_spec_history[of i "map (view st) bs" "G sys" dt] i by simp
qed

lemma hist_addrs_not_live:
  assumes "valid st bs" and "r \<in> set bs" and "e \<in> hist_addrs st r"
  shows "e < length (arrays st)" and "e \<notin> live_addrs st bs"
proof -
  show "e < length (arrays st)" using validD(4)[OF assms(1,2)] assms(3) by blast
  show "e \<notin> live_addrs st bs"
  proof
    assume "e \<in> live_addrs st bs"
    then obtain x where x: "x \<in> set bs" "e = pos_addr st x \<or> e \<in> vel_addrs st x"
      by (auto simp: live_addrs_def)
    then show False using valid_sepD(2,3)[OF assms(1) x(1) assms(2)] assms(3) by blast
  qed
qed

lemma last_evict_snoc: "evict (h @ [x]) \<noteq> [] \<and> last (evict (h @ [x])) = x"
proof (cases "length (h @ [x]) > 200000")
  case True
  then have "tl (h @ [x]) \<noteq> []" by (cases h) auto
  then show ?thesis using True by (simp add: evict_def last_tl)
next
  case False
  then show ?thesis by (simp add: evict_def)
qed

lemma length_evict:
  "length (evict h) = (if length h > 200000 then length h - 1 else length h)"
  by (simp add: evict_def)

lemma evict_window:
  fixes P :: "nat \<Rightarrow> 'a"
  shows "evict (map P [Suc (k - 200000) ..< Suc k] @ [P (Suc k)]) =
           map P [Suc (Suc k - 200000) ..< Suc (Suc k)]"
proof -
  have app: "map P [Suc (k - 200000) ..< Suc k] @ [P (Suc k)] =
               map P [Suc (k - 200000) ..< Suc (Suc k)]"
    by simp
  show ?thesis
  proof (cases "200000 \<le> k")
    case True
    then have "length (map P [Suc (k - 200000) ..< Suc (Suc k)]) > 200000" by simp
    then have "evict (map P [Suc (k - 200000) ..< Suc (Suc k)]) =
                 tl (map P [Suc (k - 200000) ..< Suc (Suc k)])"
      by (simp only: evict_def if_True)
    also have "\<dots> = map P [Suc (Suc (k - 200000)) ..< Suc (Suc k)]"
      by (simp only: map_tl[symmetric] tl_upt)
    finally have main: "evict (map P [Suc (k - 200000) ..< Suc (Suc k)]) =
                    map P [Suc (Suc (k - 200000)) ..< Suc (Suc k)]" .
    have e: "Suc k - 200000 = Suc (k - 200000)" using True by linarith
    show ?thesis unfolding app e by (rule main)
  next
    case False
    then have "\<not> length (map P [Suc (k - 200000) ..< Suc (Suc k)]) > 200000" by simp
    then have main: "evict (map P [Suc (k - 200000) ..< Suc (Suc k)]) =
                 map P [Suc (k - 200000) ..< Suc (Suc k)]"
      by (simp only: evict_def if_False)
    have e: "Suc k - 200000 = k - 200000" using False by linarith
    show ?thesis unfolding app e by (rule main)
  qed
qed

text \<open>
  C10. On a well-formed store every tick appends to each body's history a newly allocated
  array, different from the body's position array and holding the position at that moment;
  the tick leaves the contents of the entries that were already there as they were, and so
  does any number of later ticks for the entries present after it.
\<close>

theorem history_entries_are_snapshots:
  assumes v: "valid st bs" and b: "bodies sys = Some bs" and r: "r \<in> set bs"
  shows "\<exists>st1. integrate st sys dt = Inr st1
          \<and> position_history (objects st1 ! r) \<noteq> []
          \<and> last (position_history (objects st1 ! r)) \<noteq> position (objects st1 ! r)
          \<and> arrays st1 ! last (position_history (objects st1 ! r))
              = arrays st1 ! position (objects st1 ! r)
          \<and> (\<forall>e \<in> set (position_history (objects st ! r)). arrays st1 ! e = arrays st ! e)
          \<and> (\<exists>st2. ticks st1 sys dts = Inr st2
                \<and> (\<forall>e \<in> set (position_history (objects st1 ! r)).
                      arrays st2 ! e = arrays st1 ! e))"
proof -
  obtain st1 where st1: "integrate st sys dt = Inr st1" "valid st1 bs"
    "\<forall>a < length (arrays st). a \<notin> live_addrs st bs \<longrightarrow> arrays st1 ! a = arrays st ! a"
    using integrate_refines[OF v b, of dt] by blast
  let ?h = "position_history (objects st1 ! r)"
  have "map (\<lambda>a. arrays st1 ! a) ?h =
          evict (trajectoryHistory (view st r) @ [v_position (view st1 r)])"
    using integrate_history[OF v b r st1(1)] by (simp add: view_simps)
  then have m: "map (\<lambda>a. arrays st1 ! a) ?h \<noteq> []"
    "last (map (\<lambda>a. arrays st1 ! a) ?h) = v_position (view st1 r)"
    using last_evict_snoc[of "trajectoryHistory (view st r)" "v_position (view st1 r)"]
    by simp_all
  have ne: "?h \<noteq> []" using m(1) by simp
  have snap: "arrays st1 ! last ?h = arrays st1 ! position (objects st1 ! r)"
    using m(2) ne by (simp add: last_map view_simps)
  have "last ?h \<in> hist_addrs st1 r" using ne by (simp add: hist_addrs_def)
  then have fresh: "last ?h \<noteq> position (objects st1 ! r)"
    using valid_sepD(2)[OF st1(2) r r] by (auto simp: pos_addr_def)
  have old: "arrays st1 ! e = arrays st ! e" if "e \<in> set (position_history (objects st ! r))" for e
    using hist_addrs_not_live[OF v r, of e] that st1(3) by (simp add: hist_addrs_def)
  obtain st2 where st2: "ticks st1 sys dts = Inr st2"
    "\<forall>a < length (arrays st1). a \<notin> live_addrs st1 bs \<longrightarrow>
        arrays st2 ! a = arrays st1 ! a \<and> a \<notin> live_addrs st2 bs"
    using ticks_refines[OF st1(2) b, of dts] by blast
  have later: "arrays st2 ! e = arrays st1 ! e" if "e \<in> set ?h" for e
    using hist_addrs_not_live[OF st1(2) r, of e] that st2(2) by (simp add: hist_addrs_def)
  show ?thesis using st1(1) ne fresh snap old st2(1) later by blast
qed

theorem history_entries_are_snapshots_witness:
  "\<exists>st1. integrate (snd generate) (fst generate) (1 / 1000) = Inr st1
          \<and> position_history (objects st1 ! 0) \<noteq> []
          \<and> last (position_history (objects st1 ! 0)) \<noteq> position (objects st1 ! 0)
          \<and> arrays st1 ! last (position_history (objects st1 ! 0))
              = arrays st1 ! position (objects st1 ! 0)
          \<and> (\<forall>e \<in> set (position_history (objects (snd generate) ! 0)).
                arrays st1 ! e = arrays (snd generate) ! e)
          \<and> (\<exists>st2. ticks st1 (fst generate) [1 / 1000, 1 / 1000] = Inr st2
                \<and> (\<forall>e \<in> set (position_history (objects st1 ! 0)).
                      arrays st2 ! e = arrays st1 ! e))"
proof -
  have b: "bodies (fst generate) = Some [0, 1, 2, 3]" by (simp add: generate_system)
  have r: "(0 :: nat) \<in> set [0, 1, 2, 3]" by simp
  show ?thesis by (rule history_entries_are_snapshots[OF valid_generate b r])
qed

text \<open>
  C4. Starting from a well-formed store in which a body's history has at most 200000
  entries, after any number of ticks its length is the smaller of 200000 and the initial
  length plus the number of ticks; one tick appends the body's new position and then drops
  the oldest entry if there are more than 200000; and when the history started empty and
  more than 200000 ticks have run, the oldest entry kept is the position recorded at tick
  \<open>total - 200000 + 1\<close>.
\<close>

theorem trajectory_history_capped:
  assumes v: "valid st bs" and b: "bodies sys = Some bs" and r: "r \<in> set bs"
    and len0: "length (position_history (objects st ! r)) \<le> 200000"
  shows "\<exists>st'. ticks st sys dts = Inr st'
          \<and> length (position_history (objects st' ! r))
              = min (length (position_history (objects st ! r)) + length dts) 200000
          \<and> (\<forall>dt. \<exists>st1. integrate st sys dt = Inr st1
                \<and> trajectoryHistory (view st1 r)
                    = evict (trajectoryHistory (view st r) @ [v_position (view st1 r)]))
          \<and> (position_history (objects st ! r) = [] \<and> 200000 < length dts \<longrightarrow>
               (\<exists>stk. ticks st sys (take (length dts - 200000 + 1) dts) = Inr stk
                  \<and> arrays st' ! hd (position_history (objects st' ! r))
                      = arrays stk ! position (objects stk ! r)))"
proof -
  define S where "S k = projr (ticks st sys (take k dts))" for k
  define H where "H k = trajectoryHistory (view (S k) r)" for k
  define P where "P k = v_position (view (S k) r)" for k
  have S: "ticks st sys (take k dts) = Inr (S k) \<and> valid (S k) bs" for k
    using ticks_refines[OF v b, of "take k dts"] unfolding S_def by auto
  have S0: "S 0 = st" by (simp add: S_def)
  have step: "integrate (S k) sys (dts ! k) = Inr (S (Suc k))" if "k < length dts" for k
  proof -
    have "ticks st sys (take (Suc k) dts) = integrate (S k) sys (dts ! k)"
      using S[of k] that by (simp add: take_Suc_conv_app_nth ticks_snoc)
    then show ?thesis using S[of "Suc k"] by simp
  qed
  have Hstep: "H (Suc k) = evict (H k @ [P (Suc k)])" if "k < length dts" for k
    unfolding H_def P_def using integrate_history[OF _ b r step[OF that]] S[of k] by blast
  have Hlen: "length (H k) = min (length (H 0) + k) 200000" if "k \<le> length dts" for k
    using that
  proof (induction k)
    case 0
    then show ?case using len0 by (simp add: H_def S0 view_simps)
  next
    case (Suc k)
    then have "length (H k) = min (length (H 0) + k) 200000" by simp
    then show ?case using Suc.prems by (simp add: Hstep length_evict)
  qed
  have Hwin: "H k = map P [Suc (k - 200000) ..< Suc k]" if "H 0 = []" "k \<le> length dts" for k
    using that(2)
  proof (induction k)
    case 0
    then show ?case using that(1) by simp
  next
    case (Suc k)
    then have "H k = map P [Suc (k - 200000) ..< Suc k]" by simp
    then have "H (Suc k) = evict (map P [Suc (k - 200000) ..< Suc k] @ [P (Suc k)])"
      using Hstep[of k] Suc.prems by simp
    then show ?case by (simp only: evict_window)
  qed
  let ?n = "length dts"
  have run: "ticks st sys dts = Inr (S ?n)" using S[of ?n] by simp
  have len: "length (position_history (objects (S ?n) ! r))
               = min (length (position_history (objects st ! r)) + ?n) 200000"
    using Hlen[of ?n] by (simp add: H_def S0 view_simps)
  have one: "\<exists>st1. integrate st sys dt = Inr st1
                \<and> trajectoryHistory (view st1 r)
                    = evict (trajectoryHistory (view st r) @ [v_position (view st1 r)])" for dt
  proof -
    obtain st1 where "integrate st sys dt = Inr st1"
      using integrate_refines[OF v b, of dt] by blast
    then show ?thesis using integrate_history[OF v b r] by blast
  qed
  have oldest: "\<exists>stk. ticks st sys (take (?n - 200000 + 1) dts) = Inr stk
                  \<and> arrays (S ?n) ! hd (position_history (objects (S ?n) ! r))
                      = arrays stk ! position (objects stk ! r)"
    if e: "position_history (objects st ! r) = []" and long: "200000 < ?n"
  proof -
    have "H 0 = []" using e by (simp add: H_def S0 view_simps)
    then have w: "H ?n = map P [Suc (?n - 200000) ..< Suc ?n]" using Hwin[of ?n] by simp
    have lt: "Suc (?n - 200000) < Suc ?n" using long by linarith
    have "hd (H ?n) = P (Suc (?n - 200000))"
      unfolding w upt_conv_Cons[OF lt] by (simp only: list.map list.sel)
    moreover have "position_history (objects (S ?n) ! r) \<noteq> []"
      using len long e by auto
    ultimately have "arrays (S ?n) ! hd (position_history (objects (S ?n) ! r))
                       = P (?n - 200000 + 1)"
      by (simp add: H_def view_simps hd_map)
    then show ?thesis using S[of "?n - 200000 + 1"] by (auto simp: P_def view_simps)
  qed
  show ?thesis using run len one oldest by blast
qed

theorem trajectory_history_capped_witness:
  "\<exists>st'. ticks (snd generate) (fst generate) (replicate 200001 (1 / 1000)) = Inr st'
         \<and> length (position_history (objects st' ! 0)) = 200000
         \<and> (\<exists>stk. ticks (snd generate) (fst generate)
                      (take 2 (replicate 200001 (1 / 1000))) = Inr stk
               \<and> arrays st' ! hd (position_history (objects st' ! 0))
                   = arrays stk ! position (objects stk ! 0))"
proof -
  define dts :: "real list" where "dts = replicate 200001 (1 / 1000)"
  have n: "length dts = 200001" unfolding dts_def by (rule length_replicate)
  have b: "bodies (fst generate) = Some [0, 1, 2, 3]" by (simp add: generate_system)
  have r: "(0 :: nat) \<in> set [0, 1, 2, 3]" by simp
  have e: "position_history (objects (snd generate) ! 0) = []" by (simp add: generate_store)
  have len0: "length (position_history (objects (snd generate) ! 0)) \<le> 200000"
    by (simp add: e)
  obtain st' where 1: "ticks (snd generate) (fst generate) dts = Inr st'"
    and 2: "length (position_history (objects st' ! 0))
              = min (length (position_history (objects (snd generate) ! 0)) + length dts) 200000"
    and 3: "position_history (objects (snd generate) ! 0) = [] \<and> 200000 < length dts \<longrightarrow>
               (\<exists>stk. ticks (snd generate) (fst generate)
                        (take (length dts - 200000 + 1) dts) = Inr stk
                  \<and> arrays st' ! hd (position_history (objects st' ! 0))
                      = arrays stk ! position (objects stk ! 0))"
    using trajectory_history_capped[OF valid_generate b r len0, of dts] by blast
  have "length (position_history (objects st' ! 0)) = 200000" using 2 e n by simp
  moreover have "\<exists>stk. ticks (snd generate) (fst generate) (take 2 dts) = Inr stk
               \<and> arrays st' ! hd (position_history (objects st' ! 0))
                   = arrays stk ! position (objects stk ! 0)"
  proof -
    have "length dts - 200000 + 1 = 2" using n by simp
    then show ?thesis using 3 e n by (simp add: numeral_2_eq_2)
  qed
  ultimately show ?thesis using 1 unfolding dts_def by blast
qed

section \<open>The kill key, followed by a tick\<close>

lemma controls_effect:
  assumes "is_rocket (objects st ! r)" and "angle (objects st ! r) = Some h"
  shows "update_rocket_controls ks r st =
           Inr (st\<lparr>objects := (objects st)[r := (objects st ! r)
                  \<lparr>angle := Some (h + (if K_LEFT ks then 5 else 0) - (if K_RIGHT ks then 5 else 0)),
                   thrust := (if K_UP ks then 6 else 0),
                   velocity := (if K_DOWN ks then VNum 0 else velocity (objects st ! r))\<rparr>]\<rparr>)"
proof -
  have e1: "(objects st ! r)\<lparr>angle := Some h, thrust := x\<rparr> = (objects st ! r)\<lparr>thrust := x\<rparr>"
    for x using assms(2) by (intro body.equality) simp_all
  have e2: "(objects st ! r)\<lparr>angle := Some h, thrust := x, velocity := y\<rparr>
              = (objects st ! r)\<lparr>thrust := x, velocity := y\<rparr>"
    for x y using assms(2) by (intro body.equality) simp_all
  show ?thesis
    using assms by (simp add: update_rocket_controls_def Let_def e1 e2)
qed

lemma controls_valid:
  assumes v: "valid st bs" and r: "r \<in> set bs"
    and b': "position b' = position (objects st ! r)"
      "position_history b' = position_history (objects st ! r)"
      "is_rocket b' \<longrightarrow> angle b' \<noteq> None"
      "velocity b' = velocity (objects st ! r) \<or> (\<exists>n. velocity b' = VNum n)"
  shows "valid (st\<lparr>objects := (objects st)[r := b']\<rparr>) bs"
proof -
  let ?st = "st\<lparr>objects := (objects st)[r := b']\<rparr>"
  have rl: "r < length (objects st)" using validD(1)[OF v r] .
  have obj: "(objects st)[r := b'] ! x = (if x = r then b' else objects st ! x)" for x
    using rl by (simp add: nth_list_update)
  have pos: "pos_addr ?st x = pos_addr st x" for x
    using b'(1) by (simp add: pos_addr_def obj)
  have hist: "hist_addrs ?st x = hist_addrs st x" for x
    using b'(2) by (simp add: hist_addrs_def obj)
  have vel: "vel_addrs ?st x \<subseteq> vel_addrs st x" for x
    using b'(4) by (auto simp: vel_addrs_def obj)
  have len: "length (arrays ?st) = length (arrays st)" "length (objects ?st) = length (objects st)"
    by simp_all
  have rocket: "is_rocket (objects ?st ! x) \<longrightarrow> angle (objects ?st ! x) \<noteq> None"
    if "x \<in> set bs" for x
    using validD(5)[OF v that] b'(3) by (simp add: obj)
  have bounds: "x < length (objects ?st) \<and> pos_addr ?st x < length (arrays ?st) \<and>
                (\<forall>a \<in> vel_addrs ?st x. a < length (arrays ?st)) \<and>
                (\<forall>a \<in> hist_addrs ?st x. a < length (arrays ?st))"
    if "x \<in> set bs" for x
    using validD(1-4)[OF v that] vel[of x] unfolding pos hist len by blast
  have sep: "pos_addr ?st x \<notin> vel_addrs ?st y \<and> pos_addr ?st x \<notin> hist_addrs ?st y \<and>
             vel_addrs ?st x \<inter> hist_addrs ?st y = {} \<and>
             (x \<noteq> y \<longrightarrow> pos_addr ?st x \<noteq> pos_addr ?st y \<and>
                          vel_addrs ?st x \<inter> vel_addrs ?st y = {})"
    if xy: "x \<in> set bs" "y \<in> set bs" for x y
    using valid_sepD[OF v xy] vel[of x] vel[of y] unfolding pos hist by blast
  have d: "distinct bs" using v by (simp add: valid_def)
  show ?thesis unfolding valid_def using d bounds rocket sep by blast
qed

lemma integrate_spec_rocket_velocity:
  assumes "i < length vs" and "isControllable (vs ! i)"
    and "headingAngleDegrees (vs ! i) = Some h"
  shows "v_velocity (integrate_spec g dt vs ! i) =
           vadd (v_velocity (vs ! i))
                (smul dt (smul (1 / 2) (vadd (thrust_vector (thrustMagnitude (vs ! i)) h)
                                             (thrust_vector (thrustMagnitude (vs ! i)) h))))"
  using assms
  by (simp add: integrate_spec_def Let_def kick_def drift_def computeAcceleration_spec_def)

lemma velocity_step_array:
  assumes "r < length (objects st)"
  shows "\<exists>va. velocity (objects (append_history r (update_velocity a0 a1 dt r st)) ! r) = VArr va"
proof (cases "velocity (objects st ! r)")
  case (VNum n)
  show ?thesis unfolding step_VNum[OF VNum assms] using assms by simp
next
  case (VArr va)
  show ?thesis unfolding step_VArr[OF VArr assms] using assms VArr by simp
qed

lemma velocity_loop_arrays:
  assumes "valid st bs" and "snd ` set ps \<subseteq> set bs" and "x \<in> set bs"
    and "x \<in> snd ` set ps \<or> (\<exists>va. velocity (objects st ! x) = VArr va)"
  shows "\<exists>va. velocity (objects (velocity_loop a0 a1 dt ps st) ! x) = VArr va"
  using assms(1,2,4)
proof (induction ps arbitrary: st)
  case Nil
  then show ?case by simp
next
  case (Cons p ps)
  obtain i q where p: "p = (i, q)" by (cases p)
  let ?st = "append_history q (update_velocity (a0 ! i) (a1 ! i) dt q st)"
  have q: "q \<in> set bs" using Cons.prems(2) p by auto
  have ql: "q < length (objects st)" using validD(1)[OF Cons.prems(1) q] .
  have v: "valid ?st bs" by (rule velocity_step_valid[OF Cons.prems(1) q])
  have sub: "snd ` set ps \<subseteq> set bs" using Cons.prems(2) by auto
  have "x \<in> snd ` set ps \<or> (\<exists>va. velocity (objects ?st ! x) = VArr va)"
  proof (cases "x = q")
    case True
    then show ?thesis using velocity_step_array[OF ql, of "a0 ! i" "a1 ! i" dt] by simp
  next
    case False
    have "objects ?st ! x = objects st ! x"
      using velocity_step_accessors[OF ql, where aold = "a0 ! i" and anew = "a1 ! i" and dt = dt
          and x = x] False by blast
    then show ?thesis using Cons.prems(3) False p by auto
  qed
  from Cons.IH[OF v sub this] show ?case by (simp add: p)
qed

lemma integrate_velocity_arrays:
  assumes v: "valid st bs" and b: "bodies sys = Some bs" and r: "r \<in> set bs"
    and run: "integrate st sys dt = Inr st'"
  shows "\<exists>va. velocity (objects st' ! r) = VArr va"
proof -
  obtain a0 where c0: "compute_accelerations st sys = Inr a0"
    using compute_accelerations_view[OF v b] by blast
  define st1 where "st1 = position_loop a0 dt (enumerate_list bs) st"
  have same: "objects st1 = objects st" "length (arrays st1) = length (arrays st)"
    unfolding st1_def using position_loop_preserves by blast+
  have v1: "valid st1 bs" using v valid_same[OF same] by simp
  obtain a1 where c1: "compute_accelerations st1 sys = Inr a1"
    using compute_accelerations_view[OF v1 b] by blast
  have "st' = velocity_loop a0 a1 dt (enumerate_list bs) st1"
    using run by (simp add: integrate_def c0 b c1 flip: st1_def)
  then show ?thesis
    using velocity_loop_arrays[OF v1 _ r, of "enumerate_list bs" a0 a1 dt] r
    by (simp add: enumerate_props)
qed

lemma vadd_origin: "vadd (0, 0) w = w"
  by (cases w) simp

text \<open>
  What the kill key leaves intact: position and history are as before, the number 0 reads
  as the zero vector under broadcasting, and the next \<open>integrate\<close> returns with the
  rocket's velocity rebound to an array holding \<open>(a0 + a1) * dt / 2\<close>, where both
  accelerations are the thrust vector.
\<close>

lemma kill_then_integrate:
  assumes v: "valid st bs" and b: "bodies sys = Some bs" and r: "r \<in> set bs"
    and rocket: "is_rocket (objects st ! r)" and kill: "K_DOWN ks"
  shows "\<exists>st1 st2 t h.
           update_rocket_controls ks r st = Inr st1
         \<and> velocity (objects st1 ! r) = VNum 0
         \<and> v_velocity (view st1 r) = (0, 0)
         \<and> v_position (view st1 r) = v_position (view st r)
         \<and> trajectoryHistory (view st1 r) = trajectoryHistory (view st r)
         \<and> thrustMagnitude (view st1 r) = t \<and> headingAngleDegrees (view st1 r) = Some h
         \<and> integrate st1 sys dt = Inr st2
         \<and> v_velocity (view st2 r) =
             smul dt (smul (1 / 2) (vadd (thrust_vector t h) (thrust_vector t h)))
         \<and> (\<exists>va. velocity (objects st2 ! r) = VArr va)"
proof -
  obtain h0 where h0: "angle (objects st ! r) = Some h0"
    using validD(5)[OF v r] rocket by auto
  define h where "h = h0 + (if K_LEFT ks then 5 else 0) - (if K_RIGHT ks then 5 else 0)"
  define t :: real where "t = (if K_UP ks then 6 else 0)"
  define b' where "b' = (objects st ! r)\<lparr>angle := Some h, thrust := t, velocity := VNum 0\<rparr>"
  define st1 where "st1 = st\<lparr>objects := (objects st)[r := b']\<rparr>"
  have rl: "r < length (objects st)" using validD(1)[OF v r] .
  have c: "update_rocket_controls ks r st = Inr st1"
    using controls_effect[OF rocket h0, of ks] kill by (simp add: st1_def b'_def h_def t_def)
  have o1: "objects st1 ! r = b'" using rl by (simp add: st1_def)
  have v1: "valid st1 bs"
    unfolding st1_def by (rule controls_valid[OF v r]) (simp_all add: b'_def)
  obtain st2 where st2: "integrate st1 sys dt = Inr st2"
    "map (view st2) bs = integrate_spec (G sys) dt (map (view st1) bs)"
    using integrate_refines[OF v1 b, of dt] by blast
  obtain i where i: "i < length bs" "bs ! i = r" using r by (auto simp: in_set_conv_nth)
  have vi: "map (view st1) bs ! i = view st1 r" using i by simp
  have "view st2 r = integrate_spec (G sys) dt (map (view st1) bs) ! i"
    using arg_cong[OF st2(2), of "\<lambda>xs. xs ! i"] i by simp
  then have vel2: "v_velocity (view st2 r) =
             smul dt (smul (1 / 2) (vadd (thrust_vector t h) (thrust_vector t h)))"
    using integrate_spec_rocket_velocity[of i "map (view st1) bs" h "G sys" dt] i rocket
    by (simp add: vi view_simps o1 b'_def vadd_origin)
  have arr: "\<exists>va. velocity (objects st2 ! r) = VArr va"
    by (rule integrate_velocity_arrays[OF v1 b r st2(1)])
  have f: "velocity (objects st1 ! r) = VNum 0" "v_velocity (view st1 r) = (0, 0)"
    "thrustMagnitude (view st1 r) = t" "headingAngleDegrees (view st1 r) = Some h"
    by (simp_all add: view_simps o1 b'_def)
  have g: "v_position (view st1 r) = v_position (view st r)"
    "trajectoryHistory (view st1 r) = trajectoryHistory (view st r)"
    by (simp_all add: view_simps o1 b'_def) (simp_all add: st1_def)
  show ?thesis
    using c f g st2(1) vel2 arr by blast
qed

end
